theory Spec2Isabelle
  imports Complex_Main
begin

section \<open>The persistent round store\<close>

text \<open>
  The tables of \<^verbatim>\<open>supabase/migrations\<close>. Primary keys (\<^verbatim>\<open>UUID\<close>) are natural numbers, and
  every \<^verbatim>\<open>TIMESTAMP WITH TIME ZONE\<close> is an integer count of milliseconds since the epoch,
  \<^verbatim>\<open>NULL\<close> being \<open>None\<close>. A table is the list of its rows.
\<close>

datatype status = OPEN | LOCKED | LIVE | ARCHIVED

datatype round_state = SUBMITTING | LIVE_ROUND | WAITING

datatype host_type = A | B

record session =
  s_id :: nat
  persona_id :: "nat option"
  persona_name :: string
  persona_avatar :: "string option"
  status :: status
  start_time :: int
  lock_time :: "int option"
  s_created_at :: int

record message =
  m_id :: nat
  m_session_id :: nat
  audio_url :: "string option"
  transcript :: "string option"
  used :: bool
  m_created_at :: int

record persona =
  p_id :: nat
  username :: string
  profile_pic_url :: "string option"

record global_row =
  g_id :: nat
  g_session_id :: "nat option"
  g_round_state :: round_state
  current_roast_index :: int
  total_roasts :: int
  live_start_time :: "int option"
  submit_end_time :: "int option"
  updated_at :: int
  g_created_at :: int

record exchange =
  e_session_id :: nat
  e_message_id :: "nat option"
  user_transcript :: "string option"
  user_audio_url :: "string option"
  e_host_type :: host_type
  host_response :: string
  host_audio_url :: "string option"
  sequence_number :: int

text \<open>
  The object \<^verbatim>\<open>stateUpdate\<close> that \<^verbatim>\<open>updateGlobalRoundState\<close> builds and writes.
\<close>

record state_update =
  su_session_id :: "nat option"
  su_round_state :: round_state
  su_current_roast_index :: int
  su_total_roasts :: int
  su_submit_end_time :: "int option"
  su_live_start_time :: "int option"

text \<open>
  A history variable: one event for each row a write statement of the edge functions
  touches. The program never reads it. \<open>StatusWrite i old new\<close> is an update of
  \<^verbatim>\<open>roast_sessions.status\<close> on the row \<open>i\<close>, which held \<open>old\<close>; \<open>UsedWrite m st\<close> sets
  \<^verbatim>\<open>used = true\<close> on message \<open>m\<close> while the owning session's status is \<open>st\<close>;
  \<open>GlobalUpsert u\<close> is a write of \<^verbatim>\<open>stateUpdate\<close> by \<^verbatim>\<open>updateGlobalRoundState\<close>.
\<close>

datatype event =
    StatusWrite nat status status
  | UsedWrite nat "status option"
  | GlobalUpsert state_update
  | SessionInsert nat

record db =
  roast_sessions :: "session list"
  roast_messages :: "message list"
  personas :: "persona list"
  global_round_state :: "global_row list"
  history :: "event list"

datatype db_error = IntegerOutOfRange

subsection \<open>The trigger \<^verbatim>\<open>roast_messages_used_global_progress\<close>\<close>

text \<open>
  \<^verbatim>\<open>INTEGER\<close> is 32 bits and PostgreSQL raises on overflow, which aborts the statement
  that fired the trigger.
\<close>

definition INT_MAX :: int where
  "INT_MAX = 2147483647"

definition pg_add :: "int \<Rightarrow> int \<Rightarrow> db_error + int" where
  "pg_add a b = (if a + b > INT_MAX \<or> a + b < - INT_MAX - 1 then Inl IntegerOutOfRange else Inr (a + b))"

text \<open>The \<^verbatim>\<open>IF\<close> of the trigger function: \<^verbatim>\<open>used\<close> is \<^verbatim>\<open>NOT NULL\<close>, so
  \<^verbatim>\<open>IS DISTINCT FROM\<close> is inequality.\<close>

definition trigger_fires :: "message \<Rightarrow> message \<Rightarrow> bool" where
  "trigger_fires old new = (used old \<noteq> used new \<and> used new = True)"

text \<open>The \<^verbatim>\<open>WHERE\<close> and the \<^verbatim>\<open>SET\<close> of its \<^verbatim>\<open>UPDATE\<close>, on one row.\<close>

definition progress_row :: "message \<Rightarrow> int \<Rightarrow> global_row \<Rightarrow> db_error + global_row" where
  "progress_row new now g =
     (if g_session_id g = Some (m_session_id new) \<and> g_round_state g = LIVE_ROUND then
        (case pg_add (current_roast_index g) 1 of
           Inl e \<Rightarrow> Inl e
         | Inr n \<Rightarrow> Inr (g\<lparr>current_roast_index := min (total_roasts g) n, updated_at := now\<rparr>))
      else Inr g)"

fun progress_rows :: "message \<Rightarrow> int \<Rightarrow> global_row list \<Rightarrow> db_error + global_row list" where
  "progress_rows new now [] = Inr []"
| "progress_rows new now (g # gs) =
     (case progress_row new now g of
        Inl e \<Rightarrow> Inl e
      | Inr g' \<Rightarrow> (case progress_rows new now gs of Inl e \<Rightarrow> Inl e | Inr gs' \<Rightarrow> Inr (g' # gs')))"

definition increment_global_round_progress_on_message_used ::
    "message \<Rightarrow> message \<Rightarrow> int \<Rightarrow> global_row list \<Rightarrow> db_error + global_row list" where
  "increment_global_round_progress_on_message_used old new now gs =
     (if trigger_fires old new then progress_rows new now gs else Inr gs)"

subsection \<open>Reads and writes the edge functions issue\<close>

text \<open>
  Every statement is taken to succeed at the store (the \<^verbatim>\<open>if (error) throw error\<close> branches
  after a read are not taken), except where the trigger raises. The clock reading \<open>now\<close> of
  an invocation stands for \<^verbatim>\<open>new Date()\<close> and for the store's \<^verbatim>\<open>now()\<close>.
\<close>

text \<open>\<^verbatim>\<open>.eq("session_id", i).eq("used", false)\<close> with \<^verbatim>\<open>count: "exact"\<close>.\<close>

definition unused_count :: "nat \<Rightarrow> db \<Rightarrow> int" where
  "unused_count i d = int (length (filter (\<lambda>m. m_session_id m = i \<and> \<not> used m) (roast_messages d)))"

text \<open>
  \<^verbatim>\<open>.order("updated_at", { ascending: false }).limit(1).maybeSingle()\<close>: a row with the greatest
  \<^verbatim>\<open>updated_at\<close>; among equal ones the first of the table (SQL leaves that choice open).
\<close>

fun latest_global :: "global_row list \<Rightarrow> global_row option" where
  "latest_global [] = None"
| "latest_global (g # gs) =
     (case latest_global gs of
        None \<Rightarrow> Some g
      | Some h \<Rightarrow> if updated_at g < updated_at h then Some h else Some g)"

text \<open>\<^verbatim>\<open>.order("created_at", { ascending: false }).limit(1)\<close> on sessions, likewise.\<close>

fun latest_session :: "session list \<Rightarrow> session option" where
  "latest_session [] = None"
| "latest_session (s # ss) =
     (case latest_session ss of
        None \<Rightarrow> Some s
      | Some h \<Rightarrow> if s_created_at s < s_created_at h then Some h else Some s)"

text \<open>\<^verbatim>\<open>gen_random_uuid()\<close>: a key no row of the table has.\<close>

definition fresh_id :: "nat list \<Rightarrow> nat" where
  "fresh_id ids = Suc (fold max ids 0)"

text \<open>\<^verbatim>\<open>.eq("id", i).maybeSingle()\<close> and \<^verbatim>\<open>.single()\<close> on the primary key.\<close>

definition session_by_id :: "nat \<Rightarrow> db \<Rightarrow> session option" where
  "session_by_id i d = find (\<lambda>s. s_id s = i) (roast_sessions d)"

definition status_of :: "nat \<Rightarrow> db \<Rightarrow> status option" where
  "status_of i d = map_option status (session_by_id i d)"

text \<open>\<^verbatim>\<open>.update({ status: st }).eq("id", i)\<close>: keyed by the id alone.\<close>

definition set_status :: "nat \<Rightarrow> status \<Rightarrow> db \<Rightarrow> db" where
  "set_status i st d =
     d\<lparr>roast_sessions := map (\<lambda>s. if s_id s = i then s\<lparr>status := st\<rparr> else s) (roast_sessions d),
       history := history d @
         map (\<lambda>s. StatusWrite i (status s) st) (filter (\<lambda>s. s_id s = i) (roast_sessions d))\<rparr>"

text \<open>\<^verbatim>\<open>.update({ status: st }).eq("id", i).eq("status", cur)\<close>.\<close>

definition set_status_if :: "nat \<Rightarrow> status \<Rightarrow> status \<Rightarrow> db \<Rightarrow> db" where
  "set_status_if i cur st d =
     d\<lparr>roast_sessions :=
         map (\<lambda>s. if s_id s = i \<and> status s = cur then s\<lparr>status := st\<rparr> else s) (roast_sessions d),
       history := history d @
         map (\<lambda>s. StatusWrite i (status s) st)
           (filter (\<lambda>s. s_id s = i \<and> status s = cur) (roast_sessions d))\<rparr>"

text \<open>The \<^verbatim>\<open>UPDATE\<close> of one row of \<^verbatim>\<open>global_round_state\<close>; its \<^verbatim>\<open>BEFORE UPDATE\<close> trigger stamps
  \<^verbatim>\<open>updated_at\<close>.\<close>

definition apply_update :: "state_update \<Rightarrow> int \<Rightarrow> global_row \<Rightarrow> global_row" where
  "apply_update u now g =
     g\<lparr>g_session_id := su_session_id u,
       g_round_state := su_round_state u,
       current_roast_index := su_current_roast_index u,
       total_roasts := su_total_roasts u,
       live_start_time := su_live_start_time u,
       submit_end_time := su_submit_end_time u,
       updated_at := now\<rparr>"

definition insert_row :: "state_update \<Rightarrow> int \<Rightarrow> global_row list \<Rightarrow> global_row" where
  "insert_row u now gs =
     \<lparr>g_id = fresh_id (map g_id gs),
      g_session_id = su_session_id u,
      g_round_state = su_round_state u,
      current_roast_index = su_current_roast_index u,
      total_roasts = su_total_roasts u,
      live_start_time = su_live_start_time u,
      submit_end_time = su_submit_end_time u,
      updated_at = now,
      g_created_at = now\<rparr>"

text \<open>\<^verbatim>\<open>updateGlobalRoundState\<close>, the same function in both edge functions.\<close>

definition updateGlobalRoundState ::
    "nat option \<Rightarrow> round_state \<Rightarrow> int option \<Rightarrow> int option \<Rightarrow> int \<Rightarrow> db \<Rightarrow> db" where
  "updateGlobalRoundState sessionId roundState submitEndTime liveStartTime now d =
     (let totalRoasts = (case sessionId of None \<Rightarrow> 0 | Some i \<Rightarrow> unused_count i d);
          existing = latest_global (global_round_state d);
          stateUpdate = \<lparr>su_session_id = sessionId,
                         su_round_state = roundState,
                         su_current_roast_index = 0,
                         su_total_roasts = totalRoasts,
                         su_submit_end_time = submitEndTime,
                         su_live_start_time = liveStartTime\<rparr>
      in case existing of
           Some g \<Rightarrow>
             d\<lparr>global_round_state :=
                 map (\<lambda>r. if g_id r = g_id g then apply_update stateUpdate now r else r)
                   (global_round_state d),
               history := history d @ [GlobalUpsert stateUpdate]\<rparr>
         | None \<Rightarrow>
             d\<lparr>global_round_state :=
                 global_round_state d @ [insert_row stateUpdate now (global_round_state d)],
               history := history d @ [GlobalUpsert stateUpdate]\<rparr>)"

section \<open>Session Lifecycle Controller\<close>

text \<open>\<^verbatim>\<open>supabase/functions/session-manager/index.ts\<close>. \<^verbatim>\<open>.lte("lock_time", t)\<close> is false on
  \<^verbatim>\<open>NULL\<close>.\<close>

definition lte_lock_time :: "session \<Rightarrow> int \<Rightarrow> bool" where
  "lte_lock_time s t = (case lock_time s of None \<Rightarrow> False | Some l \<Rightarrow> l \<le> t)"

definition openSessions :: "int \<Rightarrow> db \<Rightarrow> session list" where
  "openSessions now d =
     filter (\<lambda>s. status s = OPEN \<and> lte_lock_time s now) (roast_sessions d)"

fun lock_loop :: "session list \<Rightarrow> db \<Rightarrow> db" where
  "lock_loop [] d = d"
| "lock_loop (s # ss) d = lock_loop ss (set_status (s_id s) LOCKED d)"

definition lockedSessions :: "int \<Rightarrow> db \<Rightarrow> session list" where
  "lockedSessions now d =
     (let tenSecondsAgo = now - 10 * 1000
      in filter (\<lambda>s. status s = LOCKED \<and> lte_lock_time s tenSecondsAgo) (roast_sessions d))"

fun live_loop :: "int \<Rightarrow> session list \<Rightarrow> db \<Rightarrow> db" where
  "live_loop now [] d = d"
| "live_loop now (s # ss) d =
     live_loop now ss
       (updateGlobalRoundState (Some (s_id s)) LIVE_ROUND (lock_time s) (Some now) now
          (set_status (s_id s) LIVE d))"

definition currentOpenSessions :: "db \<Rightarrow> session option" where
  "currentOpenSessions d = latest_session (filter (\<lambda>s. status s = OPEN) (roast_sessions d))"

definition sync_open :: "int \<Rightarrow> db \<Rightarrow> db" where
  "sync_open now d =
     (case currentOpenSessions d of
        None \<Rightarrow> d
      | Some s \<Rightarrow>
          (case latest_global (global_round_state d) of
             None \<Rightarrow> updateGlobalRoundState (Some (s_id s)) SUBMITTING (lock_time s) None now d
           | Some globalState \<Rightarrow>
               if g_session_id globalState \<noteq> Some (s_id s) \<or> g_round_state globalState \<noteq> SUBMITTING
               then updateGlobalRoundState (Some (s_id s)) SUBMITTING (lock_time s) None now d
               else d))"

definition liveSessions :: "db \<Rightarrow> nat list" where
  "liveSessions d = map s_id (filter (\<lambda>s. status s = LIVE) (roast_sessions d))"

definition archive_one :: "int \<Rightarrow> nat \<Rightarrow> db \<Rightarrow> db" where
  "archive_one now i d =
     (if unused_count i d = 0 then
        (case session_by_id i d of
           None \<Rightarrow> d
         | Some sessionData \<Rightarrow>
             (case lock_time sessionData of
                None \<Rightarrow> d
              | Some lockTime \<Rightarrow>
                  let timeSinceLock = now - lockTime
                  in if timeSinceLock > 5 * 60 * 1000
                     then updateGlobalRoundState None WAITING None None now (set_status i ARCHIVED d)
                     else d))
      else d)"

fun archive_loop :: "int \<Rightarrow> nat list \<Rightarrow> db \<Rightarrow> db" where
  "archive_loop now [] d = d"
| "archive_loop now (i # is) d = archive_loop now is (archive_one now i d)"

definition open_to_locked :: "int \<Rightarrow> db \<Rightarrow> db" where
  "open_to_locked now d = lock_loop (openSessions now d) d"

definition locked_to_live :: "int \<Rightarrow> db \<Rightarrow> db" where
  "locked_to_live now d = live_loop now (lockedSessions now d) d"

definition archive_finished :: "int \<Rightarrow> db \<Rightarrow> db" where
  "archive_finished now d = archive_loop now (liveSessions d) d"

text \<open>One invocation, and the counts \<^verbatim>\<open>openToLocked\<close>, \<^verbatim>\<open>lockedToLive\<close> of its response.\<close>

definition session_manager :: "int \<Rightarrow> db \<Rightarrow> db" where
  "session_manager now d =
     archive_finished now (sync_open now (locked_to_live now (open_to_locked now d)))"

definition session_manager_processed :: "int \<Rightarrow> db \<Rightarrow> nat \<times> nat" where
  "session_manager_processed now d =
     (length (openSessions now d), length (lockedSessions now (open_to_locked now d)))"

section \<open>Round-Completion Service\<close>

text \<open>\<^verbatim>\<open>supabase/functions/complete-live-round/index.ts\<close>, the \<^verbatim>\<open>POST\<close> path.\<close>

datatype response = Success nat "nat option" | Failure nat

text \<open>
  \<^verbatim>\<open>.update({ used: true }).eq("session_id", i).eq("used", false)\<close>. The row trigger runs once
  for each row the statement changes; an error in it undoes the statement.
\<close>

fun fire_all :: "message list \<Rightarrow> int \<Rightarrow> global_row list \<Rightarrow> db_error + global_row list" where
  "fire_all [] now gs = Inr gs"
| "fire_all (m # ms) now gs =
     (case increment_global_round_progress_on_message_used m (m\<lparr>used := True\<rparr>) now gs of
        Inl e \<Rightarrow> Inl e
      | Inr gs' \<Rightarrow> fire_all ms now gs')"

definition mark_remaining_used :: "nat \<Rightarrow> int \<Rightarrow> db \<Rightarrow> db_error + db" where
  "mark_remaining_used i now d =
     (let hit = filter (\<lambda>m. m_session_id m = i \<and> \<not> used m) (roast_messages d)
      in case fire_all hit now (global_round_state d) of
           Inl e \<Rightarrow> Inl e
         | Inr gs \<Rightarrow>
             Inr (d\<lparr>roast_messages :=
                     map (\<lambda>m. if m_session_id m = i \<and> \<not> used m then m\<lparr>used := True\<rparr> else m)
                       (roast_messages d),
                   global_round_state := gs,
                   history := history d @
                     map (\<lambda>m. UsedWrite (m_id m) (status_of (m_session_id m) d)) hit\<rparr>))"

text \<open>\<^verbatim>\<open>.in("status", ["OPEN", "LOCKED", "LIVE"]).limit(1)\<close>.\<close>

definition activeSessions :: "db \<Rightarrow> session option" where
  "activeSessions d = find (\<lambda>s. status s = OPEN \<or> status s = LOCKED \<or> status s = LIVE) (roast_sessions d)"

text \<open>
  The branch that creates the successor. \<open>rnd\<close> is the value of \<^verbatim>\<open>Math.random()\<close>; reading
  \<^verbatim>\<open>persona.id\<close> of an index outside the array throws, which the handler answers with 500.
\<close>

definition create_next :: "nat \<Rightarrow> int \<Rightarrow> real \<Rightarrow> db \<Rightarrow> db \<times> response" where
  "create_next sessionId now rnd d =
     (if length (personas d) > 0 then
        (let k = nat \<lfloor>rnd * real (length (personas d))\<rfloor>
         in if k < length (personas d) then
              (let persona = personas d ! k;
                   startTime = now;
                   lockTime = startTime + 2 * 60 * 1000;
                   created = \<lparr>s_id = fresh_id (map s_id (roast_sessions d)),
                              persona_id = Some (p_id persona),
                              persona_name = username persona,
                              persona_avatar = profile_pic_url persona,
                              status = OPEN,
                              start_time = startTime,
                              lock_time = Some lockTime,
                              s_created_at = now\<rparr>;
                   d' = d\<lparr>roast_sessions := roast_sessions d @ [created],
                          history := history d @ [SessionInsert (s_id created)]\<rparr>
               in (updateGlobalRoundState (Some (s_id created)) SUBMITTING (Some lockTime) None now d',
                   Success sessionId (Some (s_id created))))
            else (d, Failure 500))
      else (updateGlobalRoundState None WAITING None None now d, Success sessionId None))"

text \<open>The branch taken when an active session exists.\<close>

definition reconcile :: "nat \<Rightarrow> int \<Rightarrow> session \<Rightarrow> db \<Rightarrow> db \<times> response" where
  "reconcile sessionId now activeSession d =
     (case session_by_id (s_id activeSession) d of
        None \<Rightarrow> (d, Success sessionId None)
      | Some activeSessionData \<Rightarrow>
          (let roundState =
                 (if status activeSessionData = OPEN then SUBMITTING
                  else if status activeSessionData = LOCKED \<or> status activeSessionData = LIVE
                  then LIVE_ROUND else WAITING)
           in (updateGlobalRoundState (Some (s_id activeSession)) roundState
                 (lock_time activeSessionData)
                 (if status activeSessionData = LIVE then Some now else None) now d,
               Success sessionId None)))"

definition complete_live_round :: "nat option \<Rightarrow> int \<Rightarrow> real \<Rightarrow> db \<Rightarrow> db \<times> response" where
  "complete_live_round body now rnd d =
     (case body of
        None \<Rightarrow> (d, Failure 400)
      | Some sessionId \<Rightarrow>
          (case session_by_id sessionId d of
             None \<Rightarrow> (d, Failure 404)
           | Some session \<Rightarrow>
               (let d1 = set_status_if sessionId LIVE ARCHIVED d
                in case mark_remaining_used sessionId now d1 of
                     Inl e \<Rightarrow> (d1, Failure 500)
                   | Inr d2 \<Rightarrow>
                       (case activeSessions d2 of
                          None \<Rightarrow> create_next sessionId now rnd d2
                        | Some activeSession \<Rightarrow> reconcile sessionId now activeSession d2))))"

section \<open>The message-used policy\<close>

text \<open>
  The policy \<^verbatim>\<open>"Anyone can mark messages used in live sessions"\<close>, which every update of
  \<^verbatim>\<open>roast_messages\<close> by a client passes through (the edge functions hold the service role and
  bypass it). A row failing \<^verbatim>\<open>USING\<close> is not updated; a new row failing \<^verbatim>\<open>WITH CHECK\<close> makes the
  statement fail.
\<close>

definition live_session_exists :: "nat \<Rightarrow> db \<Rightarrow> bool" where
  "live_session_exists i d = list_ex (\<lambda>s. s_id s = i \<and> status s = LIVE) (roast_sessions d)"

definition policy_using :: "db \<Rightarrow> message \<Rightarrow> bool" where
  "policy_using d old = live_session_exists (m_session_id old) d"

definition policy_with_check :: "db \<Rightarrow> message \<Rightarrow> bool" where
  "policy_with_check d new = (live_session_exists (m_session_id new) d \<and> used new = True)"

datatype client_error = PolicyViolation | StoreError db_error

fun fire_each :: "(message \<times> message) list \<Rightarrow> int \<Rightarrow> global_row list \<Rightarrow> db_error + global_row list" where
  "fire_each [] now gs = Inr gs"
| "fire_each ((old, new) # ms) now gs =
     (case increment_global_round_progress_on_message_used old new now gs of
        Inl e \<Rightarrow> Inl e
      | Inr gs' \<Rightarrow> fire_each ms now gs')"

text \<open>A client's \<^verbatim>\<open>UPDATE roast_messages SET ... WHERE ...\<close>, with \<open>sel\<close> its filter and \<open>upd\<close> its
  assignment.\<close>

definition client_update_messages ::
    "(message \<Rightarrow> bool) \<Rightarrow> (message \<Rightarrow> message) \<Rightarrow> int \<Rightarrow> db \<Rightarrow> client_error + db" where
  "client_update_messages sel upd now d =
     (let hit = filter (\<lambda>m. sel m \<and> policy_using d m) (roast_messages d)
      in if \<not> list_all (\<lambda>m. policy_with_check d (upd m)) hit then Inl PolicyViolation
         else case fire_each (map (\<lambda>m. (m, upd m)) hit) now (global_round_state d) of
                Inl e \<Rightarrow> Inl (StoreError e)
              | Inr gs \<Rightarrow>
                  Inr (d\<lparr>roast_messages :=
                          map (\<lambda>m. if sel m \<and> policy_using d m then upd m else m) (roast_messages d),
                        global_round_state := gs\<rparr>))"

text \<open>\<^verbatim>\<open>markMessageUsed\<close> of the watch view: \<^verbatim>\<open>.update({ used: true }).eq("id", messageId)\<close>.\<close>

definition markMessageUsed :: "nat \<Rightarrow> int \<Rightarrow> db \<Rightarrow> client_error + db" where
  "markMessageUsed messageId now d =
     client_update_messages (\<lambda>m. m_id m = messageId) (\<lambda>m. m\<lparr>used := True\<rparr>) now d"

section \<open>Playback Follower\<close>

text \<open>
  \<^verbatim>\<open>playFollowerAudio\<close> of the watch view. Clock readings are milliseconds; \<^verbatim>\<open>elapsed\<close> and the
  clip's duration are seconds. The function either returns without creating an audio
  element (\<open>None\<close>) or installs the \<^verbatim>\<open>onloadedmetadata\<close> handler, which closes over
  \<^verbatim>\<open>elapsed\<close>; the handler sets \<^verbatim>\<open>currentTime\<close> (initially 0) and calls \<^verbatim>\<open>play()\<close>.
\<close>

definition playFollowerAudio :: "bool \<Rightarrow> int \<Rightarrow> int \<Rightarrow> real option" where
  "playFollowerAudio mounted startedAt now =
     (if \<not> mounted then None
      else let elapsed = real_of_int (now - startedAt) / 1000
           in if elapsed > 30 then None else Some elapsed)"

definition onloadedmetadata :: "real \<Rightarrow> real \<Rightarrow> real" where
  "onloadedmetadata elapsed duration =
     (if elapsed > 0 \<and> elapsed < duration then elapsed else 0)"

section \<open>Playback Scheduler\<close>

text \<open>
  The Host's scheduler of the watch view, on the refs it reads and writes. \<open>exchanges\<close> is the
  table \<^verbatim>\<open>roast_exchanges\<close> as this client leaves it and \<open>markedUsed\<close> the ids it passed to
  \<^verbatim>\<open>markMessageUsed\<close>. Three fields observe the run and are
  never read by it: \<open>calls\<close> lists the indices a tick passed to \<^verbatim>\<open>processRoast\<close>, \<open>started\<close>
  the indices whose \<^verbatim>\<open>processRoast\<close> got past its guards, and \<open>inflight\<close> the invocations of
  \<^verbatim>\<open>processRoast\<close> that are suspended at an \<^verbatim>\<open>await\<close>, with the segment they are playing.
\<close>

datatype segment = Roast | Response

record sched =
  mounted :: bool
  playing :: bool
  paused :: bool
  ticking :: bool
  hasCompleted :: bool
  liveStartTime :: int
  currentlyProcessing :: "nat option"
  roastProcessed :: "nat set"
  hostTurn :: host_type
  exchanges :: "exchange list"
  markedUsed :: "nat list"
  calls :: "nat list"
  started :: "nat list"
  inflight :: "(nat \<times> segment) list"

text \<open>The component after mounting, over the table's current rows.\<close>

definition mount :: "exchange list \<Rightarrow> sched" where
  "mount ex =
     \<lparr>mounted = True, playing = False, paused = False, ticking = False, hasCompleted = False,
      liveStartTime = 0, currentlyProcessing = None, roastProcessed = {}, hostTurn = A,
      exchanges = ex, markedUsed = [], calls = [], started = [], inflight = []\<rparr>"

definition BASE_DELAY_PER_ROAST :: int where
  "BASE_DELAY_PER_ROAST = 15000"

text \<open>\<^verbatim>\<open>message.transcript || "[Voice clip]"\<close>.\<close>

definition userText :: "message \<Rightarrow> string" where
  "userText m = (case transcript m of None \<Rightarrow> ''[Voice clip]''
                 | Some t \<Rightarrow> if t = [] then ''[Voice clip]'' else t)"

definition startTimestampScheduler :: "bool \<Rightarrow> int \<Rightarrow> sched \<Rightarrow> sched" where
  "startTimestampScheduler isHost now s =
     (if \<not> isHost then s
      else s\<lparr>liveStartTime := now, roastProcessed := {}, currentlyProcessing := None,
             playing := True, ticking := True\<rparr>)"

text \<open>
  \<^verbatim>\<open>processRoast\<close> up to its first \<^verbatim>\<open>await\<close>. Reading \<^verbatim>\<open>messages[idx].transcript\<close> outside the queue
  throws, and the invocation ends there.
\<close>

definition processRoast :: "message list \<Rightarrow> nat \<Rightarrow> sched \<Rightarrow> sched" where
  "processRoast msgs idx s =
     (if \<not> mounted s \<or> \<not> playing s then s
      else if currentlyProcessing s \<noteq> None then s
      else let s1 = s\<lparr>currentlyProcessing := Some idx,
                       roastProcessed := insert idx (roastProcessed s),
                       started := started s @ [idx]\<rparr>
           in if idx < length msgs then s1\<lparr>inflight := inflight s @ [(idx, Roast)]\<rparr> else s1)"

text \<open>\<^verbatim>\<open>processRoast idx\<close> resumed when the roast's caption and audio are done.\<close>

definition after_roast :: "nat \<Rightarrow> sched \<Rightarrow> sched" where
  "after_roast idx s =
     (if (idx, Roast) \<notin> set (inflight s) then s
      else if \<not> mounted s \<or> \<not> playing s
      then s\<lparr>currentlyProcessing := None, inflight := remove1 (idx, Roast) (inflight s)\<rparr>
      else s\<lparr>hostTurn := (if idx mod 2 = 0 then B else A),
             inflight := remove1 (idx, Roast) (inflight s) @ [(idx, Response)]\<rparr>)"

definition finishPlayback :: "sched \<Rightarrow> sched" where
  "finishPlayback s = s\<lparr>ticking := False, playing := False, hasCompleted := True\<rparr>"

text \<open>
  \<^verbatim>\<open>processRoast idx\<close> resumed when the response's caption and audio are done: \<^verbatim>\<open>saveExchange\<close>
  with \<^verbatim>\<open>idx + 1\<close>, \<^verbatim>\<open>markMessageUsed\<close>, then the end of the function. \<open>reply\<close> and
  \<open>replyAudio\<close> are what the response generator and the upload returned. \<^verbatim>\<open>saveExchange\<close> does
  not look at the result of its insert and catches what it throws, so the function goes on
  whether the row was stored or not: \<open>stored\<close> tells which.
\<close>

definition after_response ::
    "nat \<Rightarrow> message list \<Rightarrow> nat \<Rightarrow> string \<Rightarrow> string option \<Rightarrow> bool \<Rightarrow> sched \<Rightarrow> sched" where
  "after_response sid msgs idx reply replyAudio stored s =
     (if (idx, Response) \<notin> set (inflight s) \<or> \<not> idx < length msgs then s
      else let message = msgs ! idx;
               hostType = (if idx mod 2 = 0 then A else B);
               e = \<lparr>e_session_id = sid, e_message_id = Some (m_id message),
                    user_transcript = Some (userText message),
                    user_audio_url = audio_url message, e_host_type = hostType,
                    host_response = reply, host_audio_url = replyAudio,
                    sequence_number = int idx + 1\<rparr>;
               s1 = s\<lparr>exchanges := (if stored then exchanges s @ [e] else exchanges s),
                       markedUsed := markedUsed s @ [m_id message],
                       currentlyProcessing := None,
                       inflight := remove1 (idx, Response) (inflight s)\<rparr>
           in if int idx = int (length msgs) - 1 then finishPlayback s1 else s1)"

text \<open>The callback of the 250 ms interval.\<close>

definition tick :: "message list \<Rightarrow> int \<Rightarrow> sched \<Rightarrow> sched" where
  "tick msgs now s =
     (if \<not> ticking s then s
      else if \<not> mounted s \<or> \<not> playing s then s\<lparr>ticking := False\<rparr>
      else if paused s then s
      else let elapsed = now - liveStartTime s;
               s1 = (case find (\<lambda>i. elapsed \<ge> int i * BASE_DELAY_PER_ROAST \<and> i \<notin> roastProcessed s)
                            [0..<length msgs] of
                       None \<Rightarrow> s
                     | Some i \<Rightarrow>
                         if currentlyProcessing s = None
                         then processRoast msgs i (s\<lparr>calls := calls s @ [i]\<rparr>)
                         else s)
           in if card (roastProcessed s1) = length msgs \<and> currentlyProcessing s1 = None
              then s1\<lparr>ticking := False\<rparr> else s1)"

datatype sched_event =
    Tick int
  | RoastPlayed nat
  | ResponsePlayed nat string "string option" bool
  | Pause bool
  | Unmount

fun step :: "nat \<Rightarrow> message list \<Rightarrow> sched \<Rightarrow> sched_event \<Rightarrow> sched" where
  "step sid msgs s (Tick now) = tick msgs now s"
| "step sid msgs s (RoastPlayed idx) = after_roast idx s"
| "step sid msgs s (ResponsePlayed idx reply replyAudio stored) =
     after_response sid msgs idx reply replyAudio stored s"
| "step sid msgs s (Pause b) = s\<lparr>paused := b\<rparr>"
| "step sid msgs s Unmount = s\<lparr>mounted := False, ticking := False\<rparr>"

text \<open>One run: the scheduler started by the Host at \<open>now\<close>, then the events in order.\<close>

definition run :: "nat \<Rightarrow> message list \<Rightarrow> exchange list \<Rightarrow> int \<Rightarrow> sched_event list \<Rightarrow> sched" where
  "run sid msgs ex now evs = foldl (step sid msgs) (startTimestampScheduler True now (mount ex)) evs"

text \<open>\<^verbatim>\<open>fetchMessages\<close>: the session's unused messages (in the table's order of creation).\<close>

definition fetchMessages :: "nat \<Rightarrow> message list \<Rightarrow> message list" where
  "fetchMessages sid ms = filter (\<lambda>m. m_session_id m = sid \<and> \<not> used m) ms"

text \<open>An event at which no insert of an Exchange fails.\<close>

definition insert_stored :: "sched_event \<Rightarrow> bool" where
  "insert_stored ev = (case ev of ResponsePlayed idx reply replyAudio stored \<Rightarrow> stored | _ \<Rightarrow> True)"

text \<open>What the exchange of the \<open>q\<close>-th message of the queue holds: sequence number \<open>q + 1\<close>,
  the session, that message, and the host by the parity of \<open>q\<close>.\<close>

definition numbered :: "nat \<Rightarrow> message list \<Rightarrow> nat \<Rightarrow> exchange \<Rightarrow> bool" where
  "numbered sid msgs q e =
     (sequence_number e = int q + 1 \<and> e_session_id e = sid
      \<and> e_message_id e = Some (m_id (msgs ! q))
      \<and> e_host_type e = (if q mod 2 = 0 then A else B))"

text \<open>The invariant of a run over the queue \<open>msgs\<close> that found the rows \<open>ex\<close> in the table.\<close>

definition run_inv :: "nat \<Rightarrow> message list \<Rightarrow> exchange list \<Rightarrow> sched \<Rightarrow> bool" where
  "run_inv sid msgs ex s =
     (\<exists>new. exchanges s = ex @ new
        \<and> sorted_wrt (<) (map sequence_number new)
        \<and> (\<forall>e\<in>set new. \<exists>q<length (markedUsed s). numbered sid msgs q e)
        \<and> markedUsed s = map m_id (take (length (markedUsed s)) msgs)
        \<and> started s = [0..<length (started s)]
        \<and> calls s = started s
        \<and> length (started s) \<le> length msgs
        \<and> roastProcessed s = {0..<length (started s)}
        \<and> (case currentlyProcessing s of
              None \<Rightarrow> inflight s = []
                \<and> (length (markedUsed s) = length (started s)
                    \<or> (Suc (length (markedUsed s)) = length (started s)
                        \<and> (\<not> mounted s \<or> \<not> playing s)))
            | Some i \<Rightarrow> Suc i = length (started s) \<and> length (markedUsed s) = i
                \<and> (inflight s = [(i, Roast)] \<or> inflight s = [(i, Response)])))"

text \<open>With every insert stored, the rows a run has added are numbered from 1 to the number
  of messages it has completed.\<close>

definition all_stored :: "exchange list \<Rightarrow> sched \<Rightarrow> bool" where
  "all_stored ex s =
     (map sequence_number (drop (length ex) (exchanges s))
        = map (\<lambda>q. int q + 1) [0..<length (markedUsed s)])"

section \<open>Reading the history\<close>

text \<open>The events an operation added, given the store before and after it.\<close>

definition new_events :: "db \<Rightarrow> db \<Rightarrow> event list" where
  "new_events d d' = drop (length (history d)) (history d')"

text \<open>\<open>appends P d d'\<close>: the history of \<open>d'\<close> is that of \<open>d\<close> followed by events that satisfy
  \<open>P\<close>.\<close>

definition appends :: "(event \<Rightarrow> bool) \<Rightarrow> db \<Rightarrow> db \<Rightarrow> bool" where
  "appends P d d' =
     (take (length (history d)) (history d') = history d \<and> list_all P (new_events d d'))"

text \<open>The rows with an id in \<open>I\<close> get status \<open>st\<close>: what a loop of updates by id does to
  \<^verbatim>\<open>roast_sessions\<close>.\<close>

definition restamp :: "nat set \<Rightarrow> status \<Rightarrow> session list \<Rightarrow> session list" where
  "restamp I st ss = map (\<lambda>x. if s_id x \<in> I then x\<lparr>status := st\<rparr> else x) ss"

text \<open>
  The invariant of the global round state, on the fields an upsert writes: phase SUBMITTING
  has a submission deadline, phase LIVE has a live-start time.
\<close>

definition phase_invariant :: "state_update \<Rightarrow> bool" where
  "phase_invariant u =
     ((su_round_state u = SUBMITTING \<longrightarrow> su_submit_end_time u \<noteq> None)
      \<and> (su_round_state u = LIVE_ROUND \<longrightarrow> su_live_start_time u \<noteq> None))"

definition upserts_satisfy :: "(state_update \<Rightarrow> bool) \<Rightarrow> event \<Rightarrow> bool" where
  "upserts_satisfy Q e = (case e of GlobalUpsert u \<Rightarrow> Q u | _ \<Rightarrow> True)"

text \<open>What an upsert of Round-Completion satisfies: the invariant, or it is the write of phase
  LIVE without live-start for a session that is LOCKED in \<open>d\<close>.\<close>

definition reconciled :: "db \<Rightarrow> state_update \<Rightarrow> bool" where
  "reconciled d u =
     (phase_invariant u
      \<or> (su_round_state u = LIVE_ROUND \<and> su_live_start_time u = None
          \<and> su_session_id u \<noteq> None \<and> status_of (the (su_session_id u)) d = Some LOCKED))"

text \<open>An event that is not a write of \<open>used\<close> under a LIVE owning session.\<close>

definition used_write_outside_live :: "event \<Rightarrow> bool" where
  "used_write_outside_live e = (case e of UsedWrite m st \<Rightarrow> st \<noteq> Some LIVE | _ \<Rightarrow> True)"

text \<open>The update of \<^verbatim>\<open>global_round_state\<close> by \<^verbatim>\<open>.eq("id", j)\<close>, on the table.\<close>

definition rewrite :: "nat \<Rightarrow> state_update \<Rightarrow> int \<Rightarrow> global_row list \<Rightarrow> global_row list" where
  "rewrite j u n gs = map (\<lambda>r. if g_id r = j then apply_update u n r else r) gs"

text \<open>The fields of the row a reader gets with
  \<^verbatim>\<open>.order("updated_at", { ascending: false }).limit(1).maybeSingle()\<close>, as \<^verbatim>\<open>fetchState\<close> of
  \<^verbatim>\<open>useGlobalRoundState\<close> does: the global round state as the clients see it.\<close>

definition read_global :: "db \<Rightarrow> state_update option" where
  "read_global d =
     map_option (\<lambda>g. \<lparr>su_session_id = g_session_id g,
                       su_round_state = g_round_state g,
                       su_current_roast_index = current_roast_index g,
                       su_total_roasts = total_roasts g,
                       su_submit_end_time = submit_end_time g,
                       su_live_start_time = live_start_time g\<rparr>)
       (latest_global (global_round_state d))"

text \<open>The rows of \<^verbatim>\<open>global_round_state\<close> that do not share the id of the latest one were
  stamped before \<open>n\<close>: what the upserts of an invocation at \<open>n\<close> keep true of the table.\<close>

definition others_older :: "int \<Rightarrow> global_row list \<Rightarrow> bool" where
  "others_older n gs =
     (case latest_global gs of
        None \<Rightarrow> True
      | Some g \<Rightarrow> list_all (\<lambda>h. g_id h = g_id g \<or> updated_at h < n) gs)"

text \<open>The lock time of the row \<^verbatim>\<open>.eq("id", i).single()\<close> returns.\<close>

definition lock_of :: "nat \<Rightarrow> db \<Rightarrow> int option option" where
  "lock_of i d = map_option lock_time (session_by_id i d)"

section \<open>Example stores\<close>

text \<open>Rows for the concrete runs below: a session with a two-minute window that locks at \<open>lt\<close>.\<close>

definition ex_session :: "nat \<Rightarrow> nat \<Rightarrow> string \<Rightarrow> status \<Rightarrow> int \<Rightarrow> session" where
  "ex_session i p nm st lt =
     \<lparr>s_id = i, persona_id = Some p, persona_name = nm, persona_avatar = None, status = st,
      start_time = lt - 120000, lock_time = Some lt, s_created_at = lt - 120000\<rparr>"

definition ex_message :: "nat \<Rightarrow> nat \<Rightarrow> bool \<Rightarrow> message" where
  "ex_message i sid u =
     \<lparr>m_id = i, m_session_id = sid, audio_url = None, transcript = Some ''boo'', used = u,
      m_created_at = 0\<rparr>"

definition ex_personas :: "persona list" where
  "ex_personas = [\<lparr>p_id = 1, username = ''alice'', profile_pic_url = None\<rparr>,
                  \<lparr>p_id = 2, username = ''bob'', profile_pic_url = None\<rparr>]"

definition ex_global :: "nat option \<Rightarrow> round_state \<Rightarrow> int \<Rightarrow> int \<Rightarrow> global_row" where
  "ex_global sid rs idx tot =
     \<lparr>g_id = 1, g_session_id = sid, g_round_state = rs, current_roast_index = idx,
      total_roasts = tot, live_start_time = Some 130000, submit_end_time = Some 120000,
      updated_at = 130000, g_created_at = 0\<rparr>"

definition ex_db :: "session list \<Rightarrow> message list \<Rightarrow> global_row list \<Rightarrow> db" where
  "ex_db ss ms gs =
     \<lparr>roast_sessions = ss, roast_messages = ms, personas = ex_personas, global_round_state = gs,
      history = []\<rparr>"

section \<open>Properties\<close>

lemmas ex_defs = ex_session_def ex_message_def ex_personas_def ex_global_def ex_db_def

lemmas store_defs = unused_count_def fresh_id_def session_by_id_def status_of_def set_status_def
  set_status_if_def apply_update_def insert_row_def updateGlobalRoundState_def

lemmas trigger_defs = INT_MAX_def pg_add_def trigger_fires_def progress_row_def
  increment_global_round_progress_on_message_used_def

lemmas controller_defs = lte_lock_time_def openSessions_def lockedSessions_def
  currentOpenSessions_def sync_open_def liveSessions_def archive_one_def open_to_locked_def
  locked_to_live_def archive_finished_def session_manager_def

lemmas completion_defs = mark_remaining_used_def activeSessions_def create_next_def reconcile_def
  complete_live_round_def

subsection \<open>Store operations\<close>

lemma restamp_ids [simp]: "map s_id (restamp I st ss) = map s_id ss"
  by (induction ss) (auto simp: restamp_def)

lemma restamp_empty [simp]: "restamp {} st ss = ss"
  by (simp add: restamp_def)

lemma restamp_insert: "restamp I st (restamp {i} st ss) = restamp (insert i I) st ss"
  by (simp add: restamp_def)

lemma restamp_keeps: "x \<in> set ss \<Longrightarrow> s_id x \<notin> I \<Longrightarrow> x \<in> set (restamp I st ss)"
  by (force simp: restamp_def)

lemma restamp_lock_time: "\<forall>x\<in>set ss. P (lock_time x) \<Longrightarrow> \<forall>x\<in>set (restamp I st ss). P (lock_time x)"
  by (auto simp: restamp_def)

lemma find_distinct:
  "distinct (map s_id xs) \<Longrightarrow> s \<in> set xs \<Longrightarrow> find (\<lambda>x. s_id x = s_id s) xs = Some s"
proof (induction xs)
  case Nil
  then show ?case by simp
next
  case (Cons a xs)
  show ?case
  proof (cases "s = a")
    case True
    then show ?thesis by simp
  next
    case False
    with Cons.prems have "s \<in> set xs" "s_id a \<noteq> s_id s" by force+
    with Cons show ?thesis by simp
  qed
qed

lemma find_restamp:
  "find (\<lambda>x. s_id x = i) (restamp I st ss) =
     map_option (\<lambda>x. if i \<in> I then x\<lparr>status := st\<rparr> else x) (find (\<lambda>x. s_id x = i) ss)"
  by (induction ss) (auto simp: restamp_def)

lemma set_status_sessions:
  "roast_sessions (set_status i st d) = restamp {i} st (roast_sessions d)"
  by (simp add: set_status_def restamp_def)

lemma set_status_other [simp]:
  "roast_messages (set_status i st d) = roast_messages d"
  "global_round_state (set_status i st d) = global_round_state d"
  "personas (set_status i st d) = personas d"
  by (simp_all add: set_status_def)

lemma set_status_unused [simp]: "unused_count j (set_status i st d) = unused_count j d"
  by (simp add: unused_count_def)

lemma upd_global_other [simp]:
  "roast_sessions (updateGlobalRoundState a b c e n d) = roast_sessions d"
  "roast_messages (updateGlobalRoundState a b c e n d) = roast_messages d"
  "personas (updateGlobalRoundState a b c e n d) = personas d"
  by (simp_all add: updateGlobalRoundState_def Let_def split: option.splits)

lemma upd_global_unused [simp]:
  "unused_count j (updateGlobalRoundState a b c e n d) = unused_count j d"
  by (simp add: unused_count_def)

lemma upd_global_history:
  "history (updateGlobalRoundState a b c e n d) = history d @
     [GlobalUpsert \<lparr>su_session_id = a, su_round_state = b, su_current_roast_index = 0,
         su_total_roasts = (case a of None \<Rightarrow> 0 | Some i \<Rightarrow> unused_count i d),
         su_submit_end_time = c, su_live_start_time = e\<rparr>]"
  by (simp add: updateGlobalRoundState_def Let_def split: option.splits)

lemma set_status_history:
  "history (set_status i st d) = history d @
     map (\<lambda>s. StatusWrite i (status s) st) (filter (\<lambda>s. s_id s = i) (roast_sessions d))"
  by (simp add: set_status_def)

lemma lock_loop_sessions:
  "roast_sessions (lock_loop ss d) = restamp (s_id ` set ss) LOCKED (roast_sessions d)"
  by (induction ss arbitrary: d) (simp_all add: set_status_sessions restamp_insert)

lemma lock_loop_other [simp]:
  "roast_messages (lock_loop ss d) = roast_messages d"
  "global_round_state (lock_loop ss d) = global_round_state d"
  "personas (lock_loop ss d) = personas d"
  by (induction ss arbitrary: d) simp_all

lemma lock_loop_unused [simp]: "unused_count j (lock_loop ss d) = unused_count j d"
  by (simp add: unused_count_def)

lemma lock_loop_history: "\<exists>evs. history (lock_loop ss d) = history d @ evs"
proof (induction ss arbitrary: d)
  case Nil
  show ?case by simp
next
  case (Cons s ss)
  from Cons.IH [of "set_status (s_id s) LOCKED d"]
  show ?case by (auto simp: set_status_history)
qed

lemma live_loop_sessions:
  "roast_sessions (live_loop now ss d) = restamp (s_id ` set ss) LIVE (roast_sessions d)"
  by (induction ss arbitrary: d) (simp_all add: set_status_sessions restamp_insert)

lemma live_loop_other [simp]:
  "roast_messages (live_loop now ss d) = roast_messages d"
  "personas (live_loop now ss d) = personas d"
  by (induction ss arbitrary: d) simp_all

lemma live_loop_unused [simp]: "unused_count j (live_loop now ss d) = unused_count j d"
  by (simp add: unused_count_def)

lemma live_loop_history: "\<exists>evs. history (live_loop now ss d) = history d @ evs"
proof (induction ss arbitrary: d)
  case Nil
  show ?case by simp
next
  case (Cons s ss)
  from Cons.IH [of "updateGlobalRoundState (Some (s_id s)) LIVE_ROUND (lock_time s) (Some now) now
          (set_status (s_id s) LIVE d)"]
  show ?case by (auto simp: upd_global_history set_status_history)
qed

lemma status_write_logged:
  assumes "find (\<lambda>x. s_id x = i) (roast_sessions d) = Some x"
  shows "StatusWrite i (status x) st \<in> set (map (\<lambda>s. StatusWrite i (status s) st)
            (filter (\<lambda>s. s_id s = i) (roast_sessions d)))"
proof -
  from assms have "x \<in> set (roast_sessions d) \<and> s_id x = i"
    by (auto simp: find_Some_iff)
  then show ?thesis by force
qed

lemma live_step_history:
  "history (updateGlobalRoundState (Some i) LIVE_ROUND lt (Some now) now (set_status i LIVE d)) =
     history d @ (map (\<lambda>s. StatusWrite i (status s) LIVE) (filter (\<lambda>s. s_id s = i) (roast_sessions d))
       @ [GlobalUpsert \<lparr>su_session_id = Some i, su_round_state = LIVE_ROUND,
                 su_current_roast_index = 0, su_total_roasts = unused_count i d,
                 su_submit_end_time = lt, su_live_start_time = Some now\<rparr>])"
  by (simp add: upd_global_history set_status_history)

lemma live_loop_events:
  assumes "distinct (map s_id ss)"
    and "\<forall>x\<in>set ss. \<exists>y. find (\<lambda>z. s_id z = s_id x) (roast_sessions d) = Some y \<and> status y = LOCKED"
    and "s \<in> set ss"
  shows "\<exists>evs. history (live_loop now ss d) = history d @ evs
           \<and> StatusWrite (s_id s) LOCKED LIVE \<in> set evs
           \<and> GlobalUpsert \<lparr>su_session_id = Some (s_id s), su_round_state = LIVE_ROUND,
                 su_current_roast_index = 0, su_total_roasts = unused_count (s_id s) d,
                 su_submit_end_time = lock_time s, su_live_start_time = Some now\<rparr> \<in> set evs"
  using assms
proof (induction ss arbitrary: d)
  case Nil
  then show ?case by simp
next
  case (Cons a ss)
  let ?d = "updateGlobalRoundState (Some (s_id a)) LIVE_ROUND (lock_time a) (Some now) now
          (set_status (s_id a) LIVE d)"
  let ?e1 = "map (\<lambda>s. StatusWrite (s_id a) (status s) LIVE)
            (filter (\<lambda>s. s_id s = s_id a) (roast_sessions d))"
  let ?e2 = "GlobalUpsert \<lparr>su_session_id = Some (s_id a), su_round_state = LIVE_ROUND,
                 su_current_roast_index = 0, su_total_roasts = unused_count (s_id a) d,
                 su_submit_end_time = lock_time a, su_live_start_time = Some now\<rparr>"
  have h: "history ?d = history d @ (?e1 @ [?e2])" by (rule live_step_history)
  show ?case
  proof (cases "s = a")
    case True
    from Cons.prems(2) obtain y where y: "find (\<lambda>z. s_id z = s_id a) (roast_sessions d) = Some y"
      "status y = LOCKED" by auto
    from live_loop_history [of now ss ?d] obtain evs where
      evs: "history (live_loop now ss ?d) = history ?d @ evs" by blast
    from status_write_logged [OF y(1), of LIVE] y(2)
    have w: "StatusWrite (s_id a) LOCKED LIVE \<in> set ?e1" by simp
    have "history (live_loop now (a # ss) d) = history d @ (?e1 @ [?e2] @ evs)"
      using evs h by simp
    moreover have "StatusWrite (s_id s) LOCKED LIVE \<in> set (?e1 @ [?e2] @ evs)"
      using w True by simp
    moreover have "GlobalUpsert \<lparr>su_session_id = Some (s_id s), su_round_state = LIVE_ROUND,
                 su_current_roast_index = 0, su_total_roasts = unused_count (s_id s) d,
                 su_submit_end_time = lock_time s, su_live_start_time = Some now\<rparr>
                \<in> set (?e1 @ [?e2] @ evs)"
      using True by simp
    ultimately show ?thesis by blast
  next
    case False
    with Cons.prems have in_ss: "s \<in> set ss" and dist: "distinct (map s_id ss)"
      by auto
    have "s_id a \<notin> s_id ` set ss"
      using Cons.prems(1) by simp
    then have ne: "s_id x \<noteq> s_id a" if "x \<in> set ss" for x
      using that by (metis imageI)
    have inv: "\<forall>x\<in>set ss. \<exists>y. find (\<lambda>z. s_id z = s_id x) (roast_sessions ?d) = Some y \<and> status y = LOCKED"
    proof
      fix x assume x: "x \<in> set ss"
      with Cons.prems(2) obtain y where "find (\<lambda>z. s_id z = s_id x) (roast_sessions d) = Some y"
        "status y = LOCKED" by auto
      with ne [OF x] show "\<exists>y. find (\<lambda>z. s_id z = s_id x) (roast_sessions ?d) = Some y \<and> status y = LOCKED"
        by (simp add: set_status_sessions find_restamp)
    qed
    from Cons.IH [OF dist inv in_ss] obtain evs where
      evs: "history (live_loop now ss ?d) = history ?d @ evs"
        "StatusWrite (s_id s) LOCKED LIVE \<in> set evs"
        "GlobalUpsert \<lparr>su_session_id = Some (s_id s), su_round_state = LIVE_ROUND,
                 su_current_roast_index = 0, su_total_roasts = unused_count (s_id s) ?d,
                 su_submit_end_time = lock_time s, su_live_start_time = Some now\<rparr> \<in> set evs"
      by blast
    have "history (live_loop now (a # ss) d) = history d @ (?e1 @ [?e2] @ evs)"
      using evs(1) h by simp
    moreover have "StatusWrite (s_id s) LOCKED LIVE \<in> set (?e1 @ [?e2] @ evs)"
      using evs(2) by simp
    moreover have "GlobalUpsert \<lparr>su_session_id = Some (s_id s), su_round_state = LIVE_ROUND,
                 su_current_roast_index = 0, su_total_roasts = unused_count (s_id s) d,
                 su_submit_end_time = lock_time s, su_live_start_time = Some now\<rparr>
                \<in> set (?e1 @ [?e2] @ evs)"
      using evs(3) by simp
    ultimately show ?thesis by blast
  qed
qed


lemma restamp_restamp: "restamp I st (restamp J st ss) = restamp (I \<union> J) st ss"
  by (induction ss) (auto simp: restamp_def)

lemma sync_open_other [simp]:
  "roast_sessions (sync_open now d) = roast_sessions d"
  "roast_messages (sync_open now d) = roast_messages d"
  "personas (sync_open now d) = personas d"
  by (simp_all add: sync_open_def split: option.splits)

lemma sync_open_history: "\<exists>evs. history (sync_open now d) = history d @ evs"
  by (simp add: sync_open_def upd_global_history split: option.splits)

lemma archive_one_sessions:
  "\<exists>I. I \<subseteq> {i} \<and> roast_sessions (archive_one now i d) = restamp I ARCHIVED (roast_sessions d)"
proof (cases "roast_sessions (archive_one now i d) = roast_sessions d")
  case True
  then have "{} \<subseteq> {i} \<and> roast_sessions (archive_one now i d) = restamp {} ARCHIVED (roast_sessions d)"
    by simp
  then show ?thesis by (rule exI)
next
  case False
  then have "roast_sessions (archive_one now i d) = restamp {i} ARCHIVED (roast_sessions d)"
    by (auto simp: archive_one_def Let_def set_status_sessions split: option.splits if_splits)
  then have "{i} \<subseteq> {i} \<and> roast_sessions (archive_one now i d) = restamp {i} ARCHIVED (roast_sessions d)"
    by simp
  then show ?thesis by (rule exI)
qed

lemma archive_one_other [simp]:
  "roast_messages (archive_one now i d) = roast_messages d"
  "personas (archive_one now i d) = personas d"
  by (simp_all add: archive_one_def Let_def split: option.splits)

lemma archive_one_history: "\<exists>evs. history (archive_one now i d) = history d @ evs"
  by (simp add: archive_one_def Let_def upd_global_history set_status_history split: option.splits)

lemma archive_loop_sessions:
  "\<exists>I. I \<subseteq> set js \<and> roast_sessions (archive_loop now js d) = restamp I ARCHIVED (roast_sessions d)"
proof (induction js arbitrary: d)
  case Nil
  have "{} \<subseteq> set [] \<and> roast_sessions (archive_loop now [] d) = restamp {} ARCHIVED (roast_sessions d)"
    by simp
  then show ?case by (rule exI)
next
  case (Cons j js)
  from archive_one_sessions [of j now d] obtain J where
    "J \<subseteq> {j} \<and> roast_sessions (archive_one now j d) = restamp J ARCHIVED (roast_sessions d)" ..
  then have J: "J \<subseteq> {j}" "roast_sessions (archive_one now j d) = restamp J ARCHIVED (roast_sessions d)"
    by simp_all
  from Cons.IH [of "archive_one now j d"] obtain I where
    "I \<subseteq> set js \<and> roast_sessions (archive_loop now js (archive_one now j d))
         = restamp I ARCHIVED (roast_sessions (archive_one now j d))" ..
  then have I: "I \<subseteq> set js"
      "roast_sessions (archive_loop now js (archive_one now j d))
         = restamp I ARCHIVED (roast_sessions (archive_one now j d))"
    by simp_all
  have "I \<union> J \<subseteq> set (j # js)" using I(1) J(1) by auto
  moreover have "roast_sessions (archive_loop now (j # js) d) = restamp (I \<union> J) ARCHIVED (roast_sessions d)"
    using I(2) J(2) by (simp add: restamp_restamp)
  ultimately have "I \<union> J \<subseteq> set (j # js)
      \<and> roast_sessions (archive_loop now (j # js) d) = restamp (I \<union> J) ARCHIVED (roast_sessions d)" ..
  then show ?case by (rule exI)
qed

lemma archive_loop_other [simp]:
  "roast_messages (archive_loop now js d) = roast_messages d"
  "personas (archive_loop now js d) = personas d"
  by (induction js arbitrary: d) simp_all

lemma archive_loop_history: "\<exists>evs. history (archive_loop now js d) = history d @ evs"
proof (induction js arbitrary: d)
  case Nil
  show ?case by simp
next
  case (Cons j js)
  from archive_one_history [of now j d] obtain e1 where
    e1: "history (archive_one now j d) = history d @ e1" by blast
  from Cons.IH [of "archive_one now j d"] obtain e2 where
    "history (archive_loop now js (archive_one now j d)) = history (archive_one now j d) @ e2"
    by blast
  with e1 have "history (archive_loop now (j # js) d) = history d @ (e1 @ e2)" by simp
  then show ?case by blast
qed

lemma new_events_append: "history d' = history d @ evs \<Longrightarrow> new_events d d' = evs"
  by (simp add: new_events_def)

lemma filter_ids_distinct:
  "distinct (map s_id xs) \<Longrightarrow> distinct (map s_id (filter P xs))"
  by (simp add: distinct_map_filter)

lemma not_selected_id:
  assumes "distinct (map s_id xs)" and "s \<in> set xs" and "\<not> P s"
  shows "s_id s \<notin> s_id ` set (filter P xs)"
proof
  assume "s_id s \<in> s_id ` set (filter P xs)"
  then obtain y where y: "y \<in> set xs" "P y" "s_id y = s_id s" by auto
  from assms(1) y(1) have "find (\<lambda>x. s_id x = s_id y) xs = Some y" by (rule find_distinct)
  then have "find (\<lambda>x. s_id x = s_id s) xs = Some y" by (simp only: y(3))
  moreover from assms(1,2) have "find (\<lambda>x. s_id x = s_id s) xs = Some s" by (rule find_distinct)
  ultimately have "y = s" by (simp only: option.inject)
  with y(2) assms(3) show False by simp
qed

subsection \<open>Writes of the global round state\<close>

lemma appendsI: "history d' = history d @ evs \<Longrightarrow> list_all P evs \<Longrightarrow> appends P d d'"
  by (simp add: appends_def new_events_def)

lemma appends_refl [simp]: "appends P d d"
  by (simp add: appends_def new_events_def)

lemma appendsE:
  assumes "appends P d d'"
  obtains evs where "history d' = history d @ evs" and "list_all P evs"
proof -
  from assms have "history d' = history d @ new_events d d'"
    by (metis append_take_drop_id appends_def new_events_def)
  moreover from assms have "list_all P (new_events d d')" by (simp add: appends_def)
  ultimately show thesis by (rule that)
qed

lemma appends_trans:
  assumes "appends P d d1" and "appends P d1 d2"
  shows "appends P d d2"
proof -
  from assms(1) obtain e1 where e1: "history d1 = history d @ e1" "list_all P e1" by (rule appendsE)
  from assms(2) obtain e2 where e2: "history d2 = history d1 @ e2" "list_all P e2" by (rule appendsE)
  have "history d2 = history d @ (e1 @ e2)" using e1(1) e2(1) by simp
  moreover have "list_all P (e1 @ e2)" using e1(2) e2(2) by simp
  ultimately show ?thesis by (rule appendsI)
qed

lemma appendsD: "appends P d d' \<Longrightarrow> e \<in> set (new_events d d') \<Longrightarrow> P e"
  by (simp add: appends_def list_all_iff)

lemma set_status_appends: "appends (upserts_satisfy Q) d (set_status i st d)"
  by (rule appendsI [OF set_status_history]) (simp add: list_all_iff upserts_satisfy_def)

lemma set_status_if_history:
  "history (set_status_if i cur st d) = history d @
     map (\<lambda>s. StatusWrite i (status s) st) (filter (\<lambda>s. s_id s = i \<and> status s = cur) (roast_sessions d))"
  by (simp add: set_status_if_def)

lemma set_status_if_appends: "appends (upserts_satisfy Q) d (set_status_if i cur st d)"
  by (rule appendsI [OF set_status_if_history]) (simp add: list_all_iff upserts_satisfy_def)

lemma upd_global_appends:
  assumes "Q \<lparr>su_session_id = a, su_round_state = b, su_current_roast_index = 0,
         su_total_roasts = (case a of None \<Rightarrow> 0 | Some i \<Rightarrow> unused_count i d),
         su_submit_end_time = c, su_live_start_time = e\<rparr>"
  shows "appends (upserts_satisfy Q) d (updateGlobalRoundState a b c e n d)"
  by (rule appendsI [OF upd_global_history]) (simp add: upserts_satisfy_def assms)

lemma lock_loop_appends: "appends (upserts_satisfy Q) d (lock_loop ss d)"
proof (induction ss arbitrary: d)
  case Nil
  show ?case by simp
next
  case (Cons s ss)
  have "appends (upserts_satisfy Q) d (set_status (s_id s) LOCKED d)" by (rule set_status_appends)
  moreover have "appends (upserts_satisfy Q) (set_status (s_id s) LOCKED d)
      (lock_loop ss (set_status (s_id s) LOCKED d))" by (rule Cons.IH)
  ultimately show ?case by (simp only: lock_loop.simps) (rule appends_trans)
qed

lemma live_loop_appends: "appends (upserts_satisfy phase_invariant) d (live_loop now ss d)"
proof (induction ss arbitrary: d)
  case Nil
  show ?case by simp
next
  case (Cons s ss)
  let ?d1 = "set_status (s_id s) LIVE d"
  let ?d2 = "updateGlobalRoundState (Some (s_id s)) LIVE_ROUND (lock_time s) (Some now) now ?d1"
  have "appends (upserts_satisfy phase_invariant) d ?d1" by (rule set_status_appends)
  moreover have "appends (upserts_satisfy phase_invariant) ?d1 ?d2"
    by (rule upd_global_appends) (simp add: phase_invariant_def)
  ultimately have "appends (upserts_satisfy phase_invariant) d ?d2" by (rule appends_trans)
  moreover have "appends (upserts_satisfy phase_invariant) ?d2 (live_loop now ss ?d2)" by (rule Cons.IH)
  ultimately show ?case by (simp only: live_loop.simps) (rule appends_trans)
qed

lemma latest_session_in: "latest_session xs = Some s \<Longrightarrow> s \<in> set xs"
  by (induction xs arbitrary: s) (auto split: option.splits if_splits)

lemma sync_open_appends:
  assumes "\<forall>s\<in>set (roast_sessions d). lock_time s \<noteq> None"
  shows "appends (upserts_satisfy phase_invariant) d (sync_open now d)"
proof (cases "currentOpenSessions d")
  case None
  then show ?thesis by (simp add: sync_open_def)
next
  case (Some s)
  then have "s \<in> set (roast_sessions d)"
    unfolding currentOpenSessions_def by (auto dest: latest_session_in)
  with assms have l: "lock_time s \<noteq> None" by simp
  have "appends (upserts_satisfy phase_invariant) d
      (updateGlobalRoundState (Some (s_id s)) SUBMITTING (lock_time s) None now d)"
    by (rule upd_global_appends) (simp add: phase_invariant_def l)
  with Some show ?thesis by (simp add: sync_open_def split: option.splits)
qed

lemma archive_one_appends: "appends (upserts_satisfy phase_invariant) d (archive_one now i d)"
proof -
  let ?d1 = "set_status i ARCHIVED d"
  have "appends (upserts_satisfy phase_invariant) d ?d1" by (rule set_status_appends)
  moreover have "appends (upserts_satisfy phase_invariant) ?d1
      (updateGlobalRoundState None WAITING None None now ?d1)"
    by (rule upd_global_appends) (simp add: phase_invariant_def)
  ultimately have "appends (upserts_satisfy phase_invariant) d
      (updateGlobalRoundState None WAITING None None now ?d1)" by (rule appends_trans)
  then show ?thesis by (simp add: archive_one_def Let_def split: option.splits)
qed

lemma archive_loop_appends: "appends (upserts_satisfy phase_invariant) d (archive_loop now js d)"
proof (induction js arbitrary: d)
  case Nil
  show ?case by simp
next
  case (Cons j js)
  have "appends (upserts_satisfy phase_invariant) d (archive_one now j d)" by (rule archive_one_appends)
  moreover have "appends (upserts_satisfy phase_invariant) (archive_one now j d)
      (archive_loop now js (archive_one now j d))" by (rule Cons.IH)
  ultimately show ?case by (simp only: archive_loop.simps) (rule appends_trans)
qed

lemma restamp_lock_times [simp]: "map lock_time (restamp I st ss) = map lock_time ss"
  by (induction ss) (auto simp: restamp_def)

lemma all_locks_set: "(\<forall>s\<in>set xs. lock_time s \<noteq> None) = (None \<notin> set (map lock_time xs))"
  by (induction xs) auto

lemma session_manager_appends:
  assumes "\<forall>s\<in>set (roast_sessions d). lock_time s \<noteq> None"
  shows "appends (upserts_satisfy phase_invariant) d (session_manager now d)"
proof -
  let ?d1 = "open_to_locked now d"
  let ?d2 = "locked_to_live now ?d1"
  let ?d3 = "sync_open now ?d2"
  have a1: "appends (upserts_satisfy phase_invariant) d ?d1"
    unfolding open_to_locked_def by (rule lock_loop_appends)
  have a2: "appends (upserts_satisfy phase_invariant) ?d1 ?d2"
    unfolding locked_to_live_def by (rule live_loop_appends)
  have "\<forall>s\<in>set (roast_sessions ?d2). lock_time s \<noteq> None"
    using assms unfolding all_locks_set
    by (simp add: open_to_locked_def locked_to_live_def lock_loop_sessions live_loop_sessions)
  then have a3: "appends (upserts_satisfy phase_invariant) ?d2 ?d3" by (rule sync_open_appends)
  have a4: "appends (upserts_satisfy phase_invariant) ?d3 (archive_finished now ?d3)"
    unfolding archive_finished_def by (rule archive_loop_appends)
  from a1 a2 have "appends (upserts_satisfy phase_invariant) d ?d2" by (rule appends_trans)
  from this a3 have "appends (upserts_satisfy phase_invariant) d ?d3" by (rule appends_trans)
  from this a4 show ?thesis unfolding session_manager_def by (rule appends_trans)
qed


lemma fire_all_nil [simp]: "fire_all [] now gs = Inr gs"
  by simp

lemma mark_remaining_appends:
  assumes "mark_remaining_used i now d = Inr d'"
  shows "appends (upserts_satisfy Q) d d'" and "roast_sessions d' = roast_sessions d"
    and "personas d' = personas d"
proof -
  from assms have h: "history d' = history d @
      map (\<lambda>m. UsedWrite (m_id m) (status_of (m_session_id m) d))
        (filter (\<lambda>m. m_session_id m = i \<and> \<not> used m) (roast_messages d))"
    by (auto simp: mark_remaining_used_def Let_def split: sum.splits)
  show "appends (upserts_satisfy Q) d d'"
    by (rule appendsI [OF h]) (simp add: list_all_iff upserts_satisfy_def)
  from assms show "roast_sessions d' = roast_sessions d"
    by (auto simp: mark_remaining_used_def Let_def split: sum.splits)
  from assms show "personas d' = personas d"
    by (auto simp: mark_remaining_used_def Let_def split: sum.splits)
qed

lemma find_in: "find P xs = Some x \<Longrightarrow> x \<in> set xs \<and> P x"
  by (auto simp: find_Some_iff)

lemma reconcile_appends:
  assumes "\<forall>s\<in>set (roast_sessions d). lock_time s \<noteq> None"
  shows "appends (upserts_satisfy (reconciled d)) d (fst (reconcile i now a d))"
    and "roast_sessions (fst (reconcile i now a d)) = roast_sessions d"
proof -
  show "roast_sessions (fst (reconcile i now a d)) = roast_sessions d"
    by (simp add: reconcile_def Let_def split: option.splits)
  show "appends (upserts_satisfy (reconciled d)) d (fst (reconcile i now a d))"
  proof (cases "session_by_id (s_id a) d")
    case None
    then show ?thesis by (simp add: reconcile_def)
  next
    case (Some x)
    then have "x \<in> set (roast_sessions d)"
      unfolding session_by_id_def by (auto dest: find_in)
    with assms have l: "lock_time x \<noteq> None" by simp
    from Some have st: "status_of (s_id a) d = Some (status x)"
      by (simp add: status_of_def)
    let ?rs = "if status x = OPEN then SUBMITTING
               else if status x = LOCKED \<or> status x = LIVE then LIVE_ROUND else WAITING"
    have "appends (upserts_satisfy (reconciled d)) d
        (updateGlobalRoundState (Some (s_id a)) ?rs (lock_time x)
           (if status x = LIVE then Some now else None) now d)"
      by (rule upd_global_appends) (use l st in \<open>auto simp: reconciled_def phase_invariant_def\<close>)
    with Some show ?thesis by (simp add: reconcile_def Let_def)
  qed
qed

lemma create_next_appends:
  "appends (upserts_satisfy phase_invariant) d (fst (create_next i now rnd d))"
proof -
  let ?k = "nat \<lfloor>rnd * real (length (personas d))\<rfloor>"
  let ?created = "\<lparr>s_id = fresh_id (map s_id (roast_sessions d)),
                   persona_id = Some (p_id (personas d ! ?k)),
                   persona_name = username (personas d ! ?k),
                   persona_avatar = profile_pic_url (personas d ! ?k),
                   status = OPEN,
                   start_time = now,
                   lock_time = Some (now + 2 * 60 * 1000),
                   s_created_at = now\<rparr>"
  let ?d' = "d\<lparr>roast_sessions := roast_sessions d @ [?created],
               history := history d @ [SessionInsert (s_id ?created)]\<rparr>"
  have 1: "appends (upserts_satisfy phase_invariant) d ?d'"
    by (rule appendsI [of _ _ "[SessionInsert (s_id ?created)]"]) (simp_all add: upserts_satisfy_def)
  have 2: "appends (upserts_satisfy phase_invariant) ?d'
      (updateGlobalRoundState (Some (s_id ?created)) SUBMITTING (Some (now + 2 * 60 * 1000)) None now ?d')"
    by (rule upd_global_appends) (simp add: phase_invariant_def)
  have 3: "appends (upserts_satisfy phase_invariant) d
      (updateGlobalRoundState None WAITING None None now d)"
    by (rule upd_global_appends) (simp add: phase_invariant_def)
  from appends_trans [OF 1 2] 3 show ?thesis
    by (simp add: create_next_def Let_def)
qed

lemma appends_mono:
  assumes "appends P d d'" and "\<And>e. P e \<Longrightarrow> Q e"
  shows "appends Q d d'"
  using assms by (auto simp: appends_def list_all_iff)

lemma upserts_satisfy_mono: "(\<And>u. P u \<Longrightarrow> Q u) \<Longrightarrow> upserts_satisfy P e \<Longrightarrow> upserts_satisfy Q e"
  by (auto simp: upserts_satisfy_def split: event.splits)

lemma complete_live_round_appends:
  assumes "\<forall>s\<in>set (roast_sessions d). lock_time s \<noteq> None"
  shows "appends (upserts_satisfy (reconciled (fst (complete_live_round body now rnd d)))) d
           (fst (complete_live_round body now rnd d))"
proof (cases body)
  case None
  then show ?thesis by (simp add: complete_live_round_def)
next
  case (Some i)
  show ?thesis
  proof (cases "session_by_id i d")
    case None
    with Some show ?thesis by (simp add: complete_live_round_def)
  next
    case s: (Some x)
    let ?d1 = "set_status_if i LIVE ARCHIVED d"
    let ?Q = "reconciled (fst (complete_live_round body now rnd d))"
    have a1: "appends (upserts_satisfy Q) d ?d1" for Q by (rule set_status_if_appends)
    show ?thesis
    proof (cases "mark_remaining_used i now ?d1")
      case (Inl e)
      with Some s a1 show ?thesis by (simp add: complete_live_round_def Let_def)
    next
      case (Inr d2)
      have a2: "appends (upserts_satisfy Q) ?d1 d2" for Q using Inr by (rule mark_remaining_appends)
      have s2: "roast_sessions d2 = roast_sessions ?d1" using Inr by (rule mark_remaining_appends)
      have a12: "appends (upserts_satisfy Q) d d2" for Q using a1 a2 by (rule appends_trans)
      have locks: "\<forall>s\<in>set (roast_sessions d2). lock_time s \<noteq> None"
        using assms by (auto simp: s2 set_status_if_def)
      show ?thesis
      proof (cases "activeSessions d2")
        case None
        then have r: "fst (complete_live_round body now rnd d) = fst (create_next i now rnd d2)"
          using Some s Inr by (simp add: complete_live_round_def Let_def)
        have "appends (upserts_satisfy phase_invariant) d2 (fst (create_next i now rnd d2))"
          by (rule create_next_appends)
        then have "appends (upserts_satisfy ?Q) d2 (fst (create_next i now rnd d2))"
          by (rule appends_mono) (auto elim: upserts_satisfy_mono [rotated] simp: reconciled_def)
        with a12 show ?thesis unfolding r by (rule appends_trans)
      next
        case a: (Some act)
        then have r: "fst (complete_live_round body now rnd d) = fst (reconcile i now act d2)"
          using Some s Inr by (simp add: complete_live_round_def Let_def)
        have st: "status_of j (fst (reconcile i now act d2)) = status_of j d2" for j
          using reconcile_appends(2) [OF locks, of i now act]
          by (simp add: status_of_def session_by_id_def)
        have rq: "reconciled (fst (reconcile i now act d2)) = reconciled d2"
          by (rule ext) (simp add: reconciled_def st)
        have "appends (upserts_satisfy (reconciled d2)) d2 (fst (reconcile i now act d2))"
          using locks by (rule reconcile_appends)
        then have "appends (upserts_satisfy ?Q) d2 (fst (reconcile i now act d2))"
          by (rule appends_mono) (simp add: r rq)
        with a12 show ?thesis unfolding r by (rule appends_trans)
      qed
    qed
  qed
qed

text \<open>
  C3 (as amended). In a store where every session has a lock time, every write of the global
  round state by the Controller keeps the invariant (phase SUBMITTING with a deadline, phase
  LIVE with a live-start), and so does every write by Round-Completion except one: when the
  active session it reconciles to is LOCKED, it writes phase LIVE with a null live-start.
\<close>

theorem global_writes_phase_invariant:
  assumes "\<forall>s\<in>set (roast_sessions d). lock_time s \<noteq> None"
  shows "(\<forall>u. GlobalUpsert u \<in> set (new_events d (session_manager now d)) \<longrightarrow> phase_invariant u)
       \<and> (\<forall>u. GlobalUpsert u \<in> set (new_events d (fst (complete_live_round body now rnd d))) \<longrightarrow>
             phase_invariant u
             \<or> (su_round_state u = LIVE_ROUND \<and> su_live_start_time u = None
                \<and> (\<exists>i. su_session_id u = Some i
                       \<and> status_of i (fst (complete_live_round body now rnd d)) = Some LOCKED)))"
proof -
  have "phase_invariant u" if "GlobalUpsert u \<in> set (new_events d (session_manager now d))" for u
    using appendsD [OF session_manager_appends [OF assms] that] by (simp add: upserts_satisfy_def)
  moreover have "reconciled (fst (complete_live_round body now rnd d)) u"
    if "GlobalUpsert u \<in> set (new_events d (fst (complete_live_round body now rnd d)))" for u
    using appendsD [OF complete_live_round_appends [OF assms] that] by (simp add: upserts_satisfy_def)
  moreover have "(\<exists>i. su_session_id u = Some i \<and> status_of i d' = Some LOCKED)"
    if "su_session_id u \<noteq> None" and "status_of (the (su_session_id u)) d' = Some LOCKED" for u d'
    using that by (cases "su_session_id u") simp_all
  ultimately show ?thesis unfolding reconciled_def by blast
qed

theorem global_writes_phase_invariant_witness:
  "map lock_time (roast_sessions (ex_db [ex_session 1 1 ''alice'' LOCKED 120000] [] []))
     = [Some 120000]
   \<and> GlobalUpsert \<lparr>su_session_id = Some 1, su_round_state = LIVE_ROUND,
          su_current_roast_index = 0, su_total_roasts = 0,
          su_submit_end_time = Some 120000, su_live_start_time = Some 136000\<rparr>
        \<in> set (new_events (ex_db [ex_session 1 1 ''alice'' LOCKED 120000] [] [])
            (session_manager 136000 (ex_db [ex_session 1 1 ''alice'' LOCKED 120000] [] [])))
   \<and> su_live_start_time \<lparr>su_session_id = Some 1, su_round_state = LIVE_ROUND,
          su_current_roast_index = 0, su_total_roasts = 0,
          su_submit_end_time = Some 120000, su_live_start_time = Some 136000\<rparr> \<noteq> None"
proof -
  let ?D = "ex_db [ex_session 1 1 ''alice'' LOCKED 120000] [] []"
  let ?U = "\<lparr>su_session_id = Some 1, su_round_state = LIVE_ROUND,
          su_current_roast_index = 0, su_total_roasts = 0,
          su_submit_end_time = Some 120000, su_live_start_time = Some (136000::int)\<rparr>"
  have l: "map lock_time (roast_sessions ?D) = [Some 120000]"
    by (simp add: ex_defs)
  have h: "\<forall>s\<in>set (roast_sessions ?D). lock_time s \<noteq> None"
    by (simp add: ex_defs)
  have m: "GlobalUpsert ?U \<in> set (new_events ?D (session_manager 136000 ?D))"
    by (simp add: ex_defs store_defs controller_defs new_events_def Let_def)
  from global_writes_phase_invariant [OF h, of 136000] m have "phase_invariant ?U"
    by blast
  then have "su_live_start_time ?U \<noteq> None"
    unfolding phase_invariant_def by simp
  with l m show ?thesis by blast
qed

text \<open>
  C3 as stated fails in the reconcile branch: session 1 is ARCHIVED and its successor,
  session 2, is LOCKED; completing session 1 again writes the global row with phase LIVE and
  no live-start.
\<close>

theorem reconcile_writes_live_without_start:
  "map g_round_state (global_round_state (fst (complete_live_round (Some 1) 300000 0
      (ex_db [ex_session 1 1 ''alice'' ARCHIVED 120000, ex_session 2 2 ''bob'' LOCKED 295000] []
         [ex_global (Some 2) SUBMITTING 0 0])))) = [LIVE_ROUND]
   \<and> map live_start_time (global_round_state (fst (complete_live_round (Some 1) 300000 0
      (ex_db [ex_session 1 1 ''alice'' ARCHIVED 120000, ex_session 2 2 ''bob'' LOCKED 295000] []
         [ex_global (Some 2) SUBMITTING 0 0])))) = [None]"
  by (simp add: ex_defs store_defs completion_defs trigger_defs Let_def)

subsection \<open>The used flag\<close>

lemma find_archived:
  "find (\<lambda>s. s_id s = i)
      (map (\<lambda>s. if s_id s = i \<and> status s = LIVE then s\<lparr>status := ARCHIVED\<rparr> else s) xs)
   = map_option (\<lambda>s. if status s = LIVE then s\<lparr>status := ARCHIVED\<rparr> else s)
       (find (\<lambda>s. s_id s = i) xs)"
  by (induction xs) auto

lemma archived_not_live: "status_of i (set_status_if i LIVE ARCHIVED d) \<noteq> Some LIVE"
proof (cases "find (\<lambda>s. s_id s = i) (roast_sessions d)")
  case None
  then show ?thesis
    by (simp add: status_of_def session_by_id_def set_status_if_def find_archived)
next
  case (Some x)
  then show ?thesis
    by (simp add: status_of_def session_by_id_def set_status_if_def find_archived)
qed

lemma set_status_if_quiet: "appends used_write_outside_live d (set_status_if i cur st d)"
  by (rule appendsI [OF set_status_if_history]) (simp add: list_all_iff used_write_outside_live_def)

lemma upd_global_quiet: "appends used_write_outside_live d (updateGlobalRoundState a b c e n d)"
  by (rule appendsI [OF upd_global_history]) (simp add: used_write_outside_live_def)

lemma mark_remaining_quiet:
  assumes "mark_remaining_used i now d = Inr d'" and "status_of i d \<noteq> Some LIVE"
  shows "appends used_write_outside_live d d'"
proof -
  from assms(1) have h: "history d' = history d @
      map (\<lambda>m. UsedWrite (m_id m) (status_of (m_session_id m) d))
        (filter (\<lambda>m. m_session_id m = i \<and> \<not> used m) (roast_messages d))"
    by (auto simp: mark_remaining_used_def Let_def split: sum.splits)
  show ?thesis
    by (rule appendsI [OF h]) (simp add: list_all_iff used_write_outside_live_def assms(2))
qed

lemma mark_remaining_messages:
  assumes "mark_remaining_used i now d = Inr d'"
  shows "roast_messages d' =
     map (\<lambda>m. if m_session_id m = i \<and> \<not> used m then m\<lparr>used := True\<rparr> else m) (roast_messages d)"
  using assms by (auto simp: mark_remaining_used_def Let_def split: sum.splits)

lemma create_next_quiet: "appends used_write_outside_live d (fst (create_next i now rnd d))"
proof -
  let ?k = "nat \<lfloor>rnd * real (length (personas d))\<rfloor>"
  let ?created = "\<lparr>s_id = fresh_id (map s_id (roast_sessions d)),
                   persona_id = Some (p_id (personas d ! ?k)),
                   persona_name = username (personas d ! ?k),
                   persona_avatar = profile_pic_url (personas d ! ?k),
                   status = OPEN,
                   start_time = now,
                   lock_time = Some (now + 2 * 60 * 1000),
                   s_created_at = now\<rparr>"
  let ?d' = "d\<lparr>roast_sessions := roast_sessions d @ [?created],
               history := history d @ [SessionInsert (s_id ?created)]\<rparr>"
  have 1: "appends used_write_outside_live d ?d'"
    by (rule appendsI [of _ _ "[SessionInsert (s_id ?created)]"])
      (simp_all add: used_write_outside_live_def)
  have 2: "appends used_write_outside_live ?d'
      (updateGlobalRoundState (Some (s_id ?created)) SUBMITTING (Some (now + 2 * 60 * 1000)) None now ?d')"
    by (rule upd_global_quiet)
  have 3: "appends used_write_outside_live d (updateGlobalRoundState None WAITING None None now d)"
    by (rule upd_global_quiet)
  from appends_trans [OF 1 2] 3 show ?thesis
    by (simp add: create_next_def Let_def)
qed

lemma create_next_messages [simp]:
  "roast_messages (fst (create_next i now rnd d)) = roast_messages d"
  by (simp add: create_next_def Let_def)

lemma reconcile_quiet: "appends used_write_outside_live d (fst (reconcile i now a d))"
  by (simp add: reconcile_def Let_def upd_global_quiet split: option.splits)

lemma reconcile_messages [simp]:
  "roast_messages (fst (reconcile i now a d)) = roast_messages d"
  by (simp add: reconcile_def Let_def split: option.splits)

lemma set_status_if_messages [simp]:
  "roast_messages (set_status_if i cur st d) = roast_messages d"
  by (simp add: set_status_if_def)

lemma complete_live_round_quiet:
  "appends used_write_outside_live d (fst (complete_live_round body now rnd d))"
proof (cases body)
  case None
  then show ?thesis by (simp add: complete_live_round_def)
next
  case (Some i)
  show ?thesis
  proof (cases "session_by_id i d")
    case None
    with Some show ?thesis by (simp add: complete_live_round_def)
  next
    case s: (Some x)
    let ?d1 = "set_status_if i LIVE ARCHIVED d"
    have a1: "appends used_write_outside_live d ?d1" by (rule set_status_if_quiet)
    show ?thesis
    proof (cases "mark_remaining_used i now ?d1")
      case (Inl e)
      with Some s a1 show ?thesis by (simp add: complete_live_round_def Let_def)
    next
      case (Inr d2)
      have "appends used_write_outside_live ?d1 d2"
        using Inr archived_not_live by (rule mark_remaining_quiet)
      with a1 have a12: "appends used_write_outside_live d d2" by (rule appends_trans)
      show ?thesis
      proof (cases "activeSessions d2")
        case None
        then have r: "fst (complete_live_round body now rnd d) = fst (create_next i now rnd d2)"
          using Some s Inr by (simp add: complete_live_round_def Let_def)
        from a12 create_next_quiet show ?thesis unfolding r by (rule appends_trans)
      next
        case a: (Some act)
        then have r: "fst (complete_live_round body now rnd d) = fst (reconcile i now act d2)"
          using Some s Inr by (simp add: complete_live_round_def Let_def)
        from a12 reconcile_quiet show ?thesis unfolding r by (rule appends_trans)
      qed
    qed
  qed
qed

lemma complete_live_round_messages:
  "roast_messages (fst (complete_live_round body now rnd d)) = roast_messages d
   \<or> (\<exists>i. roast_messages (fst (complete_live_round body now rnd d)) =
        map (\<lambda>m. if m_session_id m = i \<and> \<not> used m then m\<lparr>used := True\<rparr> else m) (roast_messages d))"
proof (cases body)
  case None
  then show ?thesis by (simp add: complete_live_round_def)
next
  case (Some i)
  show ?thesis
  proof (cases "session_by_id i d")
    case None
    with Some show ?thesis by (simp add: complete_live_round_def)
  next
    case s: (Some x)
    let ?d1 = "set_status_if i LIVE ARCHIVED d"
    show ?thesis
    proof (cases "mark_remaining_used i now ?d1")
      case (Inl e)
      with Some s show ?thesis by (simp add: complete_live_round_def Let_def)
    next
      case (Inr d2)
      from Inr have m: "roast_messages d2 =
          map (\<lambda>m. if m_session_id m = i \<and> \<not> used m then m\<lparr>used := True\<rparr> else m) (roast_messages d)"
        by (simp add: mark_remaining_messages)
      have "roast_messages (fst (complete_live_round body now rnd d)) = roast_messages d2"
        using Some s Inr by (simp add: complete_live_round_def Let_def split: option.splits)
      with m show ?thesis by auto
    qed
  qed
qed

lemma list_all2_map_self: "(\<And>x. x \<in> set xs \<Longrightarrow> P x (f x)) \<Longrightarrow> list_all2 P xs (map f xs)"
  by (induction xs) auto

lemma session_manager_messages: "roast_messages (session_manager now d) = roast_messages d"
  by (simp add: session_manager_def archive_finished_def locked_to_live_def open_to_locked_def)

lemma client_update_monotone:
  assumes "client_update_messages sel upd now d = Inr d'"
  shows "list_all2 (\<lambda>m m'. m' = m \<or> (live_session_exists (m_session_id m) d \<and> used m'))
           (roast_messages d) (roast_messages d')"
proof -
  from assms have c: "list_all (\<lambda>m. policy_with_check d (upd m))
      (filter (\<lambda>m. sel m \<and> policy_using d m) (roast_messages d))"
    by (auto simp: client_update_messages_def Let_def split: if_splits sum.splits)
  from assms have m: "roast_messages d' =
      map (\<lambda>m. if sel m \<and> policy_using d m then upd m else m) (roast_messages d)"
    by (auto simp: client_update_messages_def Let_def split: if_splits sum.splits)
  show ?thesis unfolding m
  proof (rule list_all2_map_self)
    fix x assume "x \<in> set (roast_messages d)"
    with c show "(if sel x \<and> policy_using d x then upd x else x) = x \<or>
         live_session_exists (m_session_id x) d \<and> used (if sel x \<and> policy_using d x then upd x else x)"
      by (auto simp: list_all_iff policy_using_def policy_with_check_def)
  qed
qed

text \<open>
  C5 (as amended). The \<open>used\<close> flag only goes from false to true: the Controller writes no
  message; Round-Completion leaves a message as it is or turns an unused one to used; a
  client's update is admitted by the policy only on a message whose session is LIVE and only
  with \<open>used\<close> true in the new row. Round-Completion does not hold to the LIVE condition: it
  marks the remaining messages after its archive step, so every one of its writes of \<open>used\<close>
  finds the owning session in a status other than LIVE.
\<close>

theorem used_flag_only_set:
  "roast_messages (session_manager now d) = roast_messages d
   \<and> list_all2 (\<lambda>m m'. m' = m \<or> (\<not> used m \<and> m' = m\<lparr>used := True\<rparr>))
        (roast_messages d) (roast_messages (fst (complete_live_round body now rnd d)))
   \<and> (\<forall>m st. UsedWrite m st \<in> set (new_events d (fst (complete_live_round body now rnd d)))
          \<longrightarrow> st \<noteq> Some LIVE)
   \<and> (client_update_messages sel upd now d = Inr d' \<longrightarrow>
        list_all2 (\<lambda>m m'. m' = m \<or> (live_session_exists (m_session_id m) d \<and> used m'))
          (roast_messages d) (roast_messages d'))"
proof -
  have 2: "list_all2 (\<lambda>m m'. m' = m \<or> (\<not> used m \<and> m' = m\<lparr>used := True\<rparr>))
        (roast_messages d) (roast_messages (fst (complete_live_round body now rnd d)))"
  proof -
    from complete_live_round_messages [of body now rnd d] show ?thesis
    proof
      assume "roast_messages (fst (complete_live_round body now rnd d)) = roast_messages d"
      then show ?thesis by (simp add: list_all2_same)
    next
      assume "\<exists>i. roast_messages (fst (complete_live_round body now rnd d)) =
        map (\<lambda>m. if m_session_id m = i \<and> \<not> used m then m\<lparr>used := True\<rparr> else m) (roast_messages d)"
      then obtain i where "roast_messages (fst (complete_live_round body now rnd d)) =
        map (\<lambda>m. if m_session_id m = i \<and> \<not> used m then m\<lparr>used := True\<rparr> else m) (roast_messages d)" ..
      then show ?thesis by (simp add: list_all2_map_self)
    qed
  qed
  have 3: "st \<noteq> Some LIVE"
    if "UsedWrite m st \<in> set (new_events d (fst (complete_live_round body now rnd d)))" for m st
    using appendsD [OF complete_live_round_quiet that] by (simp add: used_write_outside_live_def)
  from session_manager_messages 2 3 client_update_monotone show ?thesis by blast
qed

theorem used_flag_only_set_witness:
  "markMessageUsed 1 140000
      (ex_db [ex_session 1 1 ''alice'' LIVE 120000] [ex_message 1 1 False]
         [ex_global (Some 1) LIVE_ROUND 0 1])
     = Inr (ex_db [ex_session 1 1 ''alice'' LIVE 120000] [ex_message 1 1 True]
         [(ex_global (Some 1) LIVE_ROUND 1 1)\<lparr>updated_at := 140000\<rparr>])
   \<and> list_all2 (\<lambda>m m'. m' = m \<or> (live_session_exists (m_session_id m)
          (ex_db [ex_session 1 1 ''alice'' LIVE 120000] [ex_message 1 1 False]
             [ex_global (Some 1) LIVE_ROUND 0 1]) \<and> used m'))
        [ex_message 1 1 False] [ex_message 1 1 True]"
proof -
  let ?D = "ex_db [ex_session 1 1 ''alice'' LIVE 120000] [ex_message 1 1 False]
         [ex_global (Some 1) LIVE_ROUND 0 1]"
  let ?D' = "ex_db [ex_session 1 1 ''alice'' LIVE 120000] [ex_message 1 1 True]
         [(ex_global (Some 1) LIVE_ROUND 1 1)\<lparr>updated_at := 140000\<rparr>]"
  have e: "client_update_messages (\<lambda>m. m_id m = 1) (\<lambda>m. m\<lparr>used := True\<rparr>) 140000 ?D = Inr ?D'"
    by (simp add: ex_defs client_update_messages_def policy_using_def policy_with_check_def
        live_session_exists_def trigger_defs Let_def)
  from used_flag_only_set [of 140000 ?D None 0 "\<lambda>m. m_id m = 1" "\<lambda>m. m\<lparr>used := True\<rparr>" ?D'] e
  have "list_all2 (\<lambda>m m'. m' = m \<or> (live_session_exists (m_session_id m) ?D \<and> used m'))
          (roast_messages ?D) (roast_messages ?D')"
    by blast
  then have "list_all2 (\<lambda>m m'. m' = m \<or> (live_session_exists (m_session_id m) ?D \<and> used m'))
          [ex_message 1 1 False] [ex_message 1 1 True]"
    by (simp add: ex_db_def)
  with e show ?thesis by (simp add: markMessageUsed_def)
qed

text \<open>
  C5 as stated fails: completing a LIVE session that still has an unused message archives
  the session first and marks the message used afterwards, while the status is ARCHIVED.
\<close>

theorem completion_marks_used_after_archiving:
  "map used (roast_messages (ex_db [ex_session 1 1 ''alice'' LIVE 120000] [ex_message 1 1 False]
       [ex_global (Some 1) LIVE_ROUND 0 1])) = [False]
   \<and> status_of 1 (set_status_if 1 LIVE ARCHIVED
        (ex_db [ex_session 1 1 ''alice'' LIVE 120000] [ex_message 1 1 False]
           [ex_global (Some 1) LIVE_ROUND 0 1])) = Some ARCHIVED
   \<and> map used (roast_messages (fst (complete_live_round (Some 1) 300000 0
        (ex_db [ex_session 1 1 ''alice'' LIVE 120000] [ex_message 1 1 False]
           [ex_global (Some 1) LIVE_ROUND 0 1])))) = [True]
   \<and> UsedWrite 1 (Some ARCHIVED) \<in> set (history (fst (complete_live_round (Some 1) 300000 0
        (ex_db [ex_session 1 1 ''alice'' LIVE 120000] [ex_message 1 1 False]
           [ex_global (Some 1) LIVE_ROUND 0 1]))))"
  by (simp add: ex_defs store_defs completion_defs trigger_defs Let_def)

subsection \<open>Completing twice\<close>

lemma latest_global_max:
  "latest_global xs = Some m \<Longrightarrow> m \<in> set xs \<and> (\<forall>h\<in>set xs. updated_at h \<le> updated_at m)"
proof (induction xs arbitrary: m)
  case Nil
  then show ?case by simp
next
  case (Cons x xs)
  show ?case
  proof (cases "latest_global xs")
    case None
    then have "xs = []" by (cases xs) (auto split: option.splits if_splits)
    with Cons.prems None show ?thesis by simp
  next
    case (Some h)
    from Cons.IH [OF Some] have ih: "h \<in> set xs" "\<forall>y\<in>set xs. updated_at y \<le> updated_at h"
      by simp_all
    show ?thesis
    proof (cases "updated_at x < updated_at h")
      case True
      with Some Cons.prems have "m = h" by simp
      with ih True show ?thesis by auto
    next
      case False
      with Some Cons.prems have "m = x" by simp
      with ih False show ?thesis by fastforce
    qed
  qed
qed

lemma latest_global_some: "xs \<noteq> [] \<Longrightarrow> \<exists>m. latest_global xs = Some m"
  by (cases xs) (auto split: option.splits)

lemma latest_global_none: "latest_global xs = None \<Longrightarrow> xs = []"
  by (cases xs) (auto split: option.splits if_splits)

lemma apply_update_id [simp]: "g_id (apply_update u n r) = g_id r"
  by (simp add: apply_update_def)

lemma apply_update_stamp [simp]: "updated_at (apply_update u n r) = n"
  by (simp add: apply_update_def)


lemma upd_global_rows:
  "global_round_state (updateGlobalRoundState a b c e n d) =
     (case latest_global (global_round_state d) of
        Some g \<Rightarrow> rewrite (g_id g)
           \<lparr>su_session_id = a, su_round_state = b, su_current_roast_index = 0,
             su_total_roasts = (case a of None \<Rightarrow> 0 | Some i \<Rightarrow> unused_count i d),
             su_submit_end_time = c, su_live_start_time = e\<rparr> n (global_round_state d)
      | None \<Rightarrow> global_round_state d @ [insert_row
           \<lparr>su_session_id = a, su_round_state = b, su_current_roast_index = 0,
             su_total_roasts = (case a of None \<Rightarrow> 0 | Some i \<Rightarrow> unused_count i d),
             su_submit_end_time = c, su_live_start_time = e\<rparr> n (global_round_state d)])"
  by (simp add: updateGlobalRoundState_def rewrite_def Let_def split: option.splits)















lemma upd_global_every [simp]:
  "session_by_id j (updateGlobalRoundState a b c e n d) = session_by_id j d"
  "activeSessions (updateGlobalRoundState a b c e n d) = activeSessions d"
  by (simp_all add: session_by_id_def activeSessions_def)





subsection \<open>The LOCKED-to-LIVE step\<close>

lemma others_older_start: "\<forall>g\<in>set gs. updated_at g < n \<Longrightarrow> others_older n gs"
  by (auto simp: others_older_def list_all_iff split: option.splits)

lemma latest_rewritten:
  assumes g: "latest_global gs = Some g" and o: "others_older n gs"
  shows "\<exists>r. latest_global (rewrite (g_id g) u n gs) = Some (apply_update u n r) \<and> g_id r = g_id g"
    and "others_older n (rewrite (g_id g) u n gs)"
proof -
  let ?gs = "rewrite (g_id g) u n gs"
  from latest_global_max [OF g] have gin: "g \<in> set gs" by simp
  then have "?gs \<noteq> []" by (auto simp: rewrite_def)
  then obtain m where m: "latest_global ?gs = Some m" using latest_global_some by blast
  from latest_global_max [OF m] have mem: "m \<in> set ?gs"
    and mx: "\<forall>h\<in>set ?gs. updated_at h \<le> updated_at m" by simp_all
  from gin have "apply_update u n g \<in> set ?gs" by (force simp: rewrite_def)
  with mx have ge: "n \<le> updated_at m" by fastforce
  from mem obtain r where r: "r \<in> set gs" "m = (if g_id r = g_id g then apply_update u n r else r)"
    by (auto simp: rewrite_def)
  from o g have old: "\<forall>h\<in>set gs. g_id h \<noteq> g_id g \<longrightarrow> updated_at h < n"
    by (auto simp: others_older_def list_all_iff)
  have same: "g_id r = g_id g"
  proof (rule ccontr)
    assume ne: "g_id r \<noteq> g_id g"
    with r old have "updated_at m < n" by simp
    with ge show False by simp
  qed
  with r(2) have mr: "m = apply_update u n r" by simp
  from m mr same show "\<exists>r. latest_global ?gs = Some (apply_update u n r) \<and> g_id r = g_id g"
    by auto
  have "\<forall>h\<in>set ?gs. g_id h = g_id m \<or> updated_at h < n"
    using old mr same by (auto simp: rewrite_def)
  with m show "others_older n ?gs"
    by (simp add: others_older_def list_all_iff)
qed

lemma upsert_read:
  assumes "others_older n (global_round_state d)"
  shows "read_global (updateGlobalRoundState a b c e n d) =
       Some \<lparr>su_session_id = a, su_round_state = b, su_current_roast_index = 0,
             su_total_roasts = (case a of None \<Rightarrow> 0 | Some i \<Rightarrow> unused_count i d),
             su_submit_end_time = c, su_live_start_time = e\<rparr>"
    and "others_older n (global_round_state (updateGlobalRoundState a b c e n d))"
proof -
  let ?u = "\<lparr>su_session_id = a, su_round_state = b, su_current_roast_index = 0,
             su_total_roasts = (case a of None \<Rightarrow> 0 | Some i \<Rightarrow> unused_count i d),
             su_submit_end_time = c, su_live_start_time = e\<rparr>"
  let ?d = "updateGlobalRoundState a b c e n d"
  have "read_global ?d = Some ?u \<and> others_older n (global_round_state ?d)"
  proof (cases "latest_global (global_round_state d)")
    case None
    then have "global_round_state d = []" by (rule latest_global_none)
    then have "global_round_state ?d = [insert_row ?u n []]"
      by (simp add: upd_global_rows)
    then show ?thesis
      by (simp add: read_global_def others_older_def insert_row_def)
  next
    case (Some g)
    then have rows: "global_round_state ?d = rewrite (g_id g) ?u n (global_round_state d)"
      by (simp add: upd_global_rows)
    from latest_rewritten [OF Some assms, of ?u] obtain r where
      "latest_global (rewrite (g_id g) ?u n (global_round_state d)) = Some (apply_update ?u n r)"
      and o: "others_older n (rewrite (g_id g) ?u n (global_round_state d))"
      by blast
    then have "latest_global (global_round_state ?d) = Some (apply_update ?u n r)"
      and "others_older n (global_round_state ?d)"
      by (simp_all only: rows)
    then show ?thesis
      by (simp add: read_global_def apply_update_def)
  qed
  then show "read_global ?d = Some ?u" and "others_older n (global_round_state ?d)"
    by simp_all
qed

lemma live_loop_older:
  "others_older n (global_round_state d) \<Longrightarrow> others_older n (global_round_state (live_loop n ss d))"
proof (induction ss arbitrary: d)
  case Nil
  then show ?case by simp
next
  case (Cons a ss)
  have "others_older n (global_round_state
      (updateGlobalRoundState (Some (s_id a)) LIVE_ROUND (lock_time a) (Some n) n
          (set_status (s_id a) LIVE d)))"
    by (rule upsert_read(2)) (simp add: Cons.prems)
  then show ?case by (simp add: Cons.IH)
qed

lemma live_loop_append:
  "live_loop now (xs @ ys) d = live_loop now ys (live_loop now xs d)"
  by (induction xs arbitrary: d) simp_all

lemma live_loop_read:
  assumes "others_older now (global_round_state d)"
  shows "read_global (live_loop now (pre @ [s]) d) =
       Some \<lparr>su_session_id = Some (s_id s), su_round_state = LIVE_ROUND, su_current_roast_index = 0,
             su_total_roasts = unused_count (s_id s) d,
             su_submit_end_time = lock_time s, su_live_start_time = Some now\<rparr>"
    and "others_older now (global_round_state (live_loop now (pre @ [s]) d))"
proof -
  let ?p = "set_status (s_id s) LIVE (live_loop now pre d)"
  have o: "others_older now (global_round_state ?p)"
    using assms by (simp add: live_loop_older)
  have e: "live_loop now (pre @ [s]) d
      = updateGlobalRoundState (Some (s_id s)) LIVE_ROUND (lock_time s) (Some now) now ?p"
    by (simp add: live_loop_append)
  from upsert_read(1) [OF o, of "Some (s_id s)" LIVE_ROUND "lock_time s" "Some now"]
  show "read_global (live_loop now (pre @ [s]) d) =
       Some \<lparr>su_session_id = Some (s_id s), su_round_state = LIVE_ROUND, su_current_roast_index = 0,
             su_total_roasts = unused_count (s_id s) d,
             su_submit_end_time = lock_time s, su_live_start_time = Some now\<rparr>"
    unfolding e by simp
  from upsert_read(2) [OF o] show "others_older now (global_round_state (live_loop now (pre @ [s]) d))"
    unfolding e .
qed

lemma lock_of_set_status [simp]: "lock_of i (set_status j st d) = lock_of i d"
  by (cases "i = j")
     (simp_all add: lock_of_def session_by_id_def set_status_sessions find_restamp option.map_comp
        comp_def)

lemma lock_of_upd [simp]: "lock_of i (updateGlobalRoundState a b c e n d) = lock_of i d"
  by (simp add: lock_of_def session_by_id_def)

lemma status_of_upd [simp]: "status_of i (updateGlobalRoundState a b c e n d) = status_of i d"
  by (simp add: status_of_def session_by_id_def)

lemma status_of_set_status:
  "status_of i (set_status j st d) = (if i = j then map_option (\<lambda>x. st) (status_of i d) else status_of i d)"
  by (cases "i = j")
     (simp_all add: status_of_def session_by_id_def set_status_sessions find_restamp
        option.map_comp comp_def)

lemma archive_one_lock [simp]: "lock_of i (archive_one now j d) = lock_of i d"
  by (simp add: archive_one_def Let_def split: option.splits)

lemma archive_one_unused [simp]: "unused_count i (archive_one now j d) = unused_count i d"
  by (simp add: unused_count_def)

lemma archive_one_status:
  "status_of i (archive_one now j d) =
     (if i = j \<and> unused_count j d = 0 \<and> (\<exists>l. lock_of j d = Some (Some l) \<and> 5 * 60 * 1000 < now - l)
      then Some ARCHIVED else status_of i d)"
proof (cases "unused_count j d = 0 \<and> (\<exists>l. lock_of j d = Some (Some l) \<and> 5 * 60 * 1000 < now - l)")
  case True
  then obtain l where l: "lock_of j d = Some (Some l)" "5 * 60 * 1000 < now - l" by blast
  then obtain x where x: "session_by_id j d = Some x" "lock_time x = Some l"
    by (auto simp: lock_of_def)
  then have "status_of j d = Some (status x)" by (simp add: status_of_def)
  with True x l(2) show ?thesis
    by (simp add: archive_one_def Let_def status_of_set_status)
next
  case False
  then have "archive_one now j d = d"
    by (auto simp: archive_one_def Let_def lock_of_def split: option.splits)
  with False show ?thesis by auto
qed

lemma archive_loop_status:
  "status_of i (archive_loop now js d) =
     (if i \<in> set js \<and> unused_count i d = 0 \<and> (\<exists>l. lock_of i d = Some (Some l) \<and> 5 * 60 * 1000 < now - l)
      then Some ARCHIVED else status_of i d)"
proof (induction js arbitrary: d)
  case Nil
  show ?case by simp
next
  case (Cons j js)
  show ?case
    by (simp only: archive_loop.simps Cons.IH archive_one_lock archive_one_unused archive_one_status)
       auto
qed

lemma read_global_set_status [simp]: "read_global (set_status i st d) = read_global d"
  by (simp add: read_global_def)

lemma archive_one_read:
  assumes "others_older now (global_round_state d)"
  shows "read_global (archive_one now i d) =
     (if unused_count i d = 0 \<and> (\<exists>l. lock_of i d = Some (Some l) \<and> 5 * 60 * 1000 < now - l)
      then Some \<lparr>su_session_id = None, su_round_state = WAITING, su_current_roast_index = 0,
             su_total_roasts = 0, su_submit_end_time = None, su_live_start_time = None\<rparr>
      else read_global d)"
proof (cases "unused_count i d = 0 \<and> (\<exists>l. lock_of i d = Some (Some l) \<and> 5 * 60 * 1000 < now - l)")
  case True
  then obtain l where l: "lock_of i d = Some (Some l)" "5 * 60 * 1000 < now - l" by blast
  then obtain x where x: "session_by_id i d = Some x" "lock_time x = Some l"
    by (auto simp: lock_of_def)
  have o: "others_older now (global_round_state (set_status i ARCHIVED d))"
    using assms by simp
  from True x l(2) have "archive_one now i d
      = updateGlobalRoundState None WAITING None None now (set_status i ARCHIVED d)"
    by (simp add: archive_one_def Let_def)
  with upsert_read(1) [OF o, of None WAITING None None] True show ?thesis by simp
next
  case False
  then have "archive_one now i d = d"
    by (auto simp: archive_one_def Let_def lock_of_def split: option.splits)
  with False show ?thesis by auto
qed

lemma filter_single:
  assumes "distinct xs" and "s \<in> set xs" and "P s" and "\<forall>x\<in>set xs. x \<noteq> s \<longrightarrow> \<not> P x"
  shows "filter P xs = [s]"
  using assms
proof (induction xs)
  case Nil
  then show ?case by simp
next
  case (Cons a xs)
  show ?case
  proof (cases "a = s")
    case True
    with Cons.prems have "\<forall>x\<in>set xs. \<not> P x" by auto
    then have "filter P xs = []" by (simp add: filter_empty_conv)
    with True Cons.prems(3) show ?thesis by simp
  next
    case False
    with Cons.prems have "filter P xs = [s]" by (intro Cons.IH) auto
    moreover from False Cons.prems(4) have "\<not> P a" by simp
    ultimately show ?thesis by simp
  qed
qed

lemma other_ids:
  assumes "distinct (map s_id xs)" and "s \<in> set xs" and "x \<in> set xs" and "x \<noteq> s"
  shows "s_id x \<noteq> s_id s"
proof
  assume e: "s_id x = s_id s"
  from assms(1,3) have "find (\<lambda>z. s_id z = s_id x) xs = Some x" by (rule find_distinct)
  moreover from assms(1,2) have "find (\<lambda>z. s_id z = s_id s) xs = Some s" by (rule find_distinct)
  ultimately show False using e assms(4) by simp
qed

text \<open>
  C4 (as amended). In a store whose session ids are distinct and whose global rows were all
  stamped before \<open>now\<close>, take a session that is LOCKED with lock time \<open>lt\<close>. When \<open>lt\<close> is at
  least 10 seconds before \<open>now\<close>, the run of the Controller reaches the session in its
  LOCKED-to-LIVE loop, and right after the two writes for it the session's status is LIVE and
  the global row a reader gets holds that session, phase LIVE, live-start \<open>now\<close>, submission
  deadline \<open>lt\<close>, index 0 and the count of the session's unused messages; the rest of the run
  is the loop over the sessions selected after it, then the steps for OPEN and for LIVE
  sessions. When the run ends, the session is LOCKED if \<open>lt\<close> is less than 10 seconds before
  \<open>now\<close>, ARCHIVED if it was due, has no unused message and \<open>lt\<close> is more than 5 minutes
  before \<open>now\<close>, and LIVE otherwise. When every other session is ARCHIVED, the global row at
  the end of the run is that LIVE row, or the WAITING row if the run archived the session.
  The run's writes include LIVE over the status LOCKED and that upsert. A session locked
  less than 10 seconds ago keeps its row unchanged.
\<close>

theorem locked_session_goes_live:
  assumes "distinct (map s_id (roast_sessions d))"
    and "s \<in> set (roast_sessions d)"
    and "status s = LOCKED"
    and "lock_time s = Some lt"
    and "\<forall>g\<in>set (global_round_state d). updated_at g < now"
  shows "(lt \<le> now - 10 * 1000 \<longrightarrow>
            (\<exists>pre post. lockedSessions now (open_to_locked now d) = pre @ s # post
               \<and> status_of (s_id s) (live_loop now (pre @ [s]) (open_to_locked now d)) = Some LIVE
               \<and> read_global (live_loop now (pre @ [s]) (open_to_locked now d))
                   = Some \<lparr>su_session_id = Some (s_id s), su_round_state = LIVE_ROUND,
                       su_current_roast_index = 0, su_total_roasts = unused_count (s_id s) d,
                       su_submit_end_time = Some lt, su_live_start_time = Some now\<rparr>
               \<and> session_manager now d
                   = archive_finished now (sync_open now
                       (live_loop now post (live_loop now (pre @ [s]) (open_to_locked now d))))))
       \<and> status_of (s_id s) (session_manager now d)
           = Some (if now - 10 * 1000 < lt then LOCKED
                   else if unused_count (s_id s) d = 0 \<and> 5 * 60 * 1000 < now - lt then ARCHIVED
                   else LIVE)
       \<and> (lt \<le> now - 10 * 1000 \<and> (\<forall>x\<in>set (roast_sessions d). x \<noteq> s \<longrightarrow> status x = ARCHIVED) \<longrightarrow>
            read_global (session_manager now d)
              = Some (if unused_count (s_id s) d = 0 \<and> 5 * 60 * 1000 < now - lt
                      then \<lparr>su_session_id = None, su_round_state = WAITING,
                             su_current_roast_index = 0, su_total_roasts = 0,
                             su_submit_end_time = None, su_live_start_time = None\<rparr>
                      else \<lparr>su_session_id = Some (s_id s), su_round_state = LIVE_ROUND,
                             su_current_roast_index = 0, su_total_roasts = unused_count (s_id s) d,
                             su_submit_end_time = Some lt, su_live_start_time = Some now\<rparr>))
       \<and> (lt \<le> now - 10 * 1000 \<longrightarrow>
            StatusWrite (s_id s) LOCKED LIVE \<in> set (new_events d (session_manager now d))
          \<and> GlobalUpsert \<lparr>su_session_id = Some (s_id s), su_round_state = LIVE_ROUND,
                su_current_roast_index = 0, su_total_roasts = unused_count (s_id s) d,
                su_submit_end_time = Some lt, su_live_start_time = Some now\<rparr>
              \<in> set (new_events d (session_manager now d)))
       \<and> (now - 10 * 1000 < lt \<longrightarrow> s \<in> set (roast_sessions (session_manager now d)))"
proof -
  let ?d1 = "open_to_locked now d"
  let ?d2 = "locked_to_live now ?d1"
  let ?d3 = "sync_open now ?d2"
  let ?d4 = "archive_finished now ?d3"
  let ?live = "\<lparr>su_session_id = Some (s_id s), su_round_state = LIVE_ROUND,
                 su_current_roast_index = 0, su_total_roasts = unused_count (s_id s) d,
                 su_submit_end_time = Some lt, su_live_start_time = Some now\<rparr>"
  let ?cond = "unused_count (s_id s) d = 0 \<and> 5 * 60 * 1000 < now - lt"
  have d4: "session_manager now d = ?d4" by (simp add: session_manager_def)
  have s1: "roast_sessions ?d1 = restamp (s_id ` set (openSessions now d)) LOCKED (roast_sessions d)"
    by (simp add: open_to_locked_def lock_loop_sessions)
  have "s_id s \<notin> s_id ` set (openSessions now d)"
    unfolding openSessions_def using assms(1,2) by (rule not_selected_id) (simp add: assms(3))
  with assms(2) s1 have in1: "s \<in> set (roast_sessions ?d1)"
    by (simp add: restamp_keeps)
  have dist1: "distinct (map s_id (roast_sessions ?d1))"
    using assms(1) s1 by simp
  have find1: "find (\<lambda>z. s_id z = s_id s) (roast_sessions ?d1) = Some s"
    using dist1 in1 by (rule find_distinct)
  have s2: "roast_sessions ?d2 = restamp (s_id ` set (lockedSessions now ?d1)) LIVE (roast_sessions ?d1)"
    by (simp add: locked_to_live_def live_loop_sessions)
  have u1: "unused_count (s_id s) ?d1 = unused_count (s_id s) d"
    by (simp add: open_to_locked_def)
  have o1: "others_older now (global_round_state ?d1)"
    using assms(5) by (simp add: open_to_locked_def others_older_start)
  have u3: "unused_count (s_id s) ?d3 = unused_count (s_id s) d"
    by (simp add: unused_count_def locked_to_live_def open_to_locked_def)
  have st3: "status_of (s_id s) ?d3 = status_of (s_id s) ?d2"
    by (simp add: status_of_def session_by_id_def)
  have lk3: "lock_of (s_id s) ?d3 = Some (Some lt)"
    using find1 assms(4) by (simp add: lock_of_def session_by_id_def s2 find_restamp)
  have end_status: "status_of (s_id s) ?d4 =
      (if s_id s \<in> set (liveSessions ?d3) \<and> ?cond then Some ARCHIVED else status_of (s_id s) ?d2)"
    unfolding archive_finished_def archive_loop_status u3 lk3 st3 by simp
  have due: "(\<exists>pre post. lockedSessions now ?d1 = pre @ s # post
               \<and> status_of (s_id s) (live_loop now (pre @ [s]) ?d1) = Some LIVE
               \<and> read_global (live_loop now (pre @ [s]) ?d1) = Some ?live
               \<and> session_manager now d
                   = archive_finished now (sync_open now
                       (live_loop now post (live_loop now (pre @ [s]) ?d1))))
        \<and> status_of (s_id s) (session_manager now d) = Some (if ?cond then ARCHIVED else LIVE)"
    if lt: "lt \<le> now - 10 * 1000"
  proof -
    have sel: "s \<in> set (lockedSessions now ?d1)"
      using in1 assms(3,4) lt by (simp add: lockedSessions_def lte_lock_time_def)
    then obtain pre post where sp: "lockedSessions now ?d1 = pre @ s # post"
      by (auto simp: in_set_conv_decomp)
    let ?m = "live_loop now (pre @ [s]) ?d1"
    have a: "status_of (s_id s) ?m = Some LIVE"
      using find1 by (simp add: status_of_def session_by_id_def live_loop_sessions find_restamp)
    have b: "read_global ?m = Some ?live"
      using live_loop_read(1) [OF o1, of pre s] by (simp add: u1 assms(4))
    have "live_loop now (pre @ s # post) ?d1 = live_loop now post ?m"
      using live_loop_append [of now "pre @ [s]" post ?d1] by simp
    then have c: "session_manager now d = archive_finished now (sync_open now (live_loop now post ?m))"
      by (simp add: session_manager_def locked_to_live_def sp)
    have live2: "status_of (s_id s) ?d2 = Some LIVE"
      using find1 sel by (simp add: status_of_def session_by_id_def s2 find_restamp)
    with st3 obtain x where x: "find (\<lambda>z. s_id z = s_id s) (roast_sessions ?d3) = Some x"
      "status x = LIVE"
      by (auto simp: status_of_def session_by_id_def)
    then have xin: "x \<in> set (roast_sessions ?d3)" and xid: "s_id x = s_id s"
      by (auto simp: find_Some_iff)
    from xin x(2) have "x \<in> set (filter (\<lambda>x. status x = LIVE) (roast_sessions ?d3))"
      by (simp only: set_filter mem_Collect_eq simp_thms)
    then have "s_id x \<in> s_id ` set (filter (\<lambda>x. status x = LIVE) (roast_sessions ?d3))"
      by (rule imageI)
    then have "s_id s \<in> set (liveSessions ?d3)"
      unfolding liveSessions_def set_map xid .
    with end_status live2 have e: "status_of (s_id s) (session_manager now d)
        = Some (if ?cond then ARCHIVED else LIVE)"
      unfolding d4 by simp
    from sp a b c have "lockedSessions now ?d1 = pre @ s # post
               \<and> status_of (s_id s) (live_loop now (pre @ [s]) ?d1) = Some LIVE
               \<and> read_global (live_loop now (pre @ [s]) ?d1) = Some ?live
               \<and> session_manager now d
                   = archive_finished now (sync_open now
                       (live_loop now post (live_loop now (pre @ [s]) ?d1)))"
      by simp
    then have "\<exists>post. lockedSessions now ?d1 = pre @ s # post
               \<and> status_of (s_id s) (live_loop now (pre @ [s]) ?d1) = Some LIVE
               \<and> read_global (live_loop now (pre @ [s]) ?d1) = Some ?live
               \<and> session_manager now d
                   = archive_finished now (sync_open now
                       (live_loop now post (live_loop now (pre @ [s]) ?d1)))"
      by (rule exI)
    then have "\<exists>pre post. lockedSessions now ?d1 = pre @ s # post
               \<and> status_of (s_id s) (live_loop now (pre @ [s]) ?d1) = Some LIVE
               \<and> read_global (live_loop now (pre @ [s]) ?d1) = Some ?live
               \<and> session_manager now d
                   = archive_finished now (sync_open now
                       (live_loop now post (live_loop now (pre @ [s]) ?d1)))"
      by (rule exI)
    with e show ?thesis by simp
  qed
  have notdue: "s \<in> set (roast_sessions (session_manager now d))
        \<and> status_of (s_id s) (session_manager now d) = Some LOCKED"
    if lt: "now - 10 * 1000 < lt"
  proof -
    have "s_id s \<notin> s_id ` set (lockedSessions now ?d1)"
      unfolding lockedSessions_def Let_def using dist1 in1
      by (rule not_selected_id) (use lt in \<open>simp add: lte_lock_time_def assms(4)\<close>)
    with in1 s2 have in2: "s \<in> set (roast_sessions ?d2)"
      by (simp add: restamp_keeps)
    then have in3: "s \<in> set (roast_sessions ?d3)" by simp
    have dist3: "distinct (map s_id (roast_sessions ?d3))" using dist1 s2 by simp
    from archive_loop_sessions [of "liveSessions ?d3" now ?d3] obtain I where
      "I \<subseteq> set (liveSessions ?d3)
        \<and> roast_sessions ?d4 = restamp I ARCHIVED (roast_sessions ?d3)"
      unfolding archive_finished_def ..
    then have I: "I \<subseteq> set (liveSessions ?d3)"
        "roast_sessions ?d4 = restamp I ARCHIVED (roast_sessions ?d3)"
      by simp_all
    have "s_id s \<notin> s_id ` set (filter (\<lambda>x. status x = LIVE) (roast_sessions ?d3))"
      using dist3 in3 by (rule not_selected_id) (simp add: assms(3))
    with I(1) have "s_id s \<notin> I" by (auto simp: liveSessions_def)
    with in3 I(2) have in4: "s \<in> set (roast_sessions ?d4)" by (simp add: restamp_keeps)
    have "distinct (map s_id (roast_sessions ?d4))" using dist3 I(2) by simp
    then have "find (\<lambda>z. s_id z = s_id s) (roast_sessions ?d4) = Some s"
      using in4 by (rule find_distinct)
    with in4 show ?thesis
      unfolding d4 by (simp add: status_of_def session_by_id_def assms(3))
  qed
  have alone: "read_global (session_manager now d) = Some (if ?cond
                      then \<lparr>su_session_id = None, su_round_state = WAITING,
                             su_current_roast_index = 0, su_total_roasts = 0,
                             su_submit_end_time = None, su_live_start_time = None\<rparr>
                      else ?live)"
    if lt: "lt \<le> now - 10 * 1000"
      and al: "\<forall>x\<in>set (roast_sessions d). x \<noteq> s \<longrightarrow> status x = ARCHIVED"
  proof -
    have "\<forall>x\<in>set (roast_sessions d). \<not> (status x = OPEN \<and> lte_lock_time x now)"
      using al assms(3) by (metis status.distinct(1) status.distinct(5))
    then have "openSessions now d = []"
      by (simp add: openSessions_def filter_empty_conv)
    then have e1: "?d1 = d" by (simp add: open_to_locked_def)
    have ds: "distinct (roast_sessions d)" using assms(1) by (simp add: distinct_map)
    have "filter (\<lambda>x. status x = LOCKED \<and> lte_lock_time x (now - 10 * 1000)) (roast_sessions d) = [s]"
      using ds assms(2)
    proof (rule filter_single)
      show "status s = LOCKED \<and> lte_lock_time s (now - 10 * 1000)"
        using assms(3,4) lt by (simp add: lte_lock_time_def)
      show "\<forall>x\<in>set (roast_sessions d). x \<noteq> s \<longrightarrow> \<not> (status x = LOCKED \<and> lte_lock_time x (now - 10 * 1000))"
        using al by auto
    qed
    then have e2: "lockedSessions now d = [s]" by (simp add: lockedSessions_def)
    have d2: "?d2 = live_loop now ([] @ [s]) d"
      by (simp add: locked_to_live_def e1 e2)
    have o0: "others_older now (global_round_state d)" using o1 by (simp only: e1)
    from live_loop_read [OF o0, of "[]" s] have r2: "read_global ?d2 = Some ?live"
      and o2: "others_older now (global_round_state ?d2)"
      unfolding d2 by (simp_all add: assms(4))
    have ss2: "roast_sessions ?d2 = restamp {s_id s} LIVE (roast_sessions d)"
      unfolding d2 by (simp add: set_status_sessions)
    have ids: "s_id x \<noteq> s_id s" if "x \<in> set (roast_sessions d)" "x \<noteq> s" for x
      using assms(1,2) that by (rule other_ids)
    have "\<forall>x\<in>set (roast_sessions ?d2). status x \<noteq> OPEN"
      unfolding ss2 using al assms(3) by (auto simp: restamp_def)
    then have "filter (\<lambda>x. status x = OPEN) (roast_sessions ?d2) = []"
      by (simp add: filter_empty_conv)
    then have "currentOpenSessions ?d2 = None" by (simp add: currentOpenSessions_def)
    then have e3: "?d3 = ?d2" by (simp add: sync_open_def)
    have "map s_id (filter (\<lambda>x. status x = LIVE) (restamp {s_id s} LIVE xs))
           = map s_id (filter (\<lambda>x. x = s) xs)"
      if "set xs \<subseteq> set (roast_sessions d)" for xs
      using that
    proof (induction xs)
      case Nil
      show ?case by (simp add: restamp_def)
    next
      case (Cons a xs)
      then have ih: "map s_id (filter (\<lambda>x. status x = LIVE) (restamp {s_id s} LIVE xs))
           = map s_id (filter (\<lambda>x. x = s) xs)" and a: "a \<in> set (roast_sessions d)" by simp_all
      show ?case
      proof (cases "a = s")
        case True
        with ih show ?thesis by (simp add: restamp_def)
      next
        case False
        with a al ids have "status a = ARCHIVED" "s_id a \<noteq> s_id s" by simp_all
        with False ih show ?thesis by (simp add: restamp_def)
      qed
    qed
    then have "map s_id (filter (\<lambda>x. status x = LIVE) (restamp {s_id s} LIVE (roast_sessions d)))
           = map s_id (filter (\<lambda>x. x = s) (roast_sessions d))" by simp
    moreover have "filter (\<lambda>x. x = s) (roast_sessions d) = [s]"
      using ds assms(2) by (rule filter_single) simp_all
    ultimately have e4: "liveSessions ?d3 = [s_id s]"
      unfolding e3 liveSessions_def ss2 by simp
    have d4': "?d4 = archive_one now (s_id s) ?d2"
      unfolding archive_finished_def e4 by (simp add: e3)
    have lk2: "lock_of (s_id s) ?d2 = Some (Some lt)" using lk3 by (simp only: e3)
    have u2: "unused_count (s_id s) ?d2 = unused_count (s_id s) d" using u3 by (simp only: e3)
    show ?thesis
      unfolding d4 d4' archive_one_read [OF o2] lk2 u2 r2 by simp
  qed
  have ev: "StatusWrite (s_id s) LOCKED LIVE \<in> set (new_events d (session_manager now d))
          \<and> GlobalUpsert ?live \<in> set (new_events d (session_manager now d))"
    if lt: "lt \<le> now - 10 * 1000"
  proof -
    obtain e1 where e1: "history ?d1 = history d @ e1"
      unfolding open_to_locked_def using lock_loop_history by blast
    obtain e3 where e3: "history ?d3 = history ?d2 @ e3"
      using sync_open_history by blast
    obtain e4 where e4: "history ?d4 = history ?d3 @ e4"
      unfolding archive_finished_def using archive_loop_history by blast
    have sel: "s \<in> set (lockedSessions now ?d1)"
      using in1 assms(3,4) lt by (simp add: lockedSessions_def lte_lock_time_def)
    have dsel: "distinct (map s_id (lockedSessions now ?d1))"
      unfolding lockedSessions_def Let_def using dist1 by (rule filter_ids_distinct)
    have all: "\<forall>x\<in>set (lockedSessions now ?d1).
        \<exists>y. find (\<lambda>z. s_id z = s_id x) (roast_sessions ?d1) = Some y \<and> status y = LOCKED"
    proof
      fix x assume "x \<in> set (lockedSessions now ?d1)"
      then have x: "x \<in> set (roast_sessions ?d1)" "status x = LOCKED"
        by (simp_all add: lockedSessions_def)
      from dist1 x(1) have "find (\<lambda>z. s_id z = s_id x) (roast_sessions ?d1) = Some x"
        by (rule find_distinct)
      with x(2) show "\<exists>y. find (\<lambda>z. s_id z = s_id x) (roast_sessions ?d1) = Some y \<and> status y = LOCKED"
        by simp
    qed
    from live_loop_events [OF dsel all sel, of now] obtain e2 where
      e2: "history ?d2 = history ?d1 @ e2"
        "StatusWrite (s_id s) LOCKED LIVE \<in> set e2"
        "GlobalUpsert \<lparr>su_session_id = Some (s_id s), su_round_state = LIVE_ROUND,
                 su_current_roast_index = 0, su_total_roasts = unused_count (s_id s) ?d1,
                 su_submit_end_time = lock_time s, su_live_start_time = Some now\<rparr> \<in> set e2"
      unfolding locked_to_live_def by blast
    have "history ?d4 = history d @ (e1 @ e2 @ e3 @ e4)"
      using e1 e2(1) e3 e4 by simp
    then have ne: "new_events d (session_manager now d) = e1 @ e2 @ e3 @ e4"
      unfolding d4 by (rule new_events_append)
    from ne e2(2,3) u1 assms(4) show ?thesis by simp
  qed
  show ?thesis
  proof (cases "lt \<le> now - 10 * 1000")
    case True
    from due [OF True] alone [OF True] ev [OF True] True show ?thesis by simp
  next
    case False
    then have "now - 10 * 1000 < lt" by simp
    from notdue [OF this] this show ?thesis by simp
  qed
qed

theorem locked_session_goes_live_witness:
  "status_of 1 (session_manager 136000
      (ex_db [ex_session 1 1 ''alice'' LOCKED 120000, ex_session 3 2 ''bob'' ARCHIVED 50000]
         [ex_message 1 1 False] [ex_global None WAITING 0 0])) = Some LIVE
   \<and> read_global (session_manager 136000
      (ex_db [ex_session 1 1 ''alice'' LOCKED 120000, ex_session 3 2 ''bob'' ARCHIVED 50000]
         [ex_message 1 1 False] [ex_global None WAITING 0 0]))
       = Some \<lparr>su_session_id = Some 1, su_round_state = LIVE_ROUND, su_current_roast_index = 0,
            su_total_roasts = 1, su_submit_end_time = Some 120000, su_live_start_time = Some 136000\<rparr>
   \<and> status_of 2 (session_manager 136000
      (ex_db [ex_session 1 1 ''alice'' LOCKED 120000, ex_session 2 2 ''bob'' LOCKED 130000] [] []))
       = Some LOCKED
   \<and> ex_session 2 2 ''bob'' LOCKED 130000
        \<in> set (roast_sessions (session_manager 136000
            (ex_db [ex_session 1 1 ''alice'' LOCKED 120000, ex_session 2 2 ''bob'' LOCKED 130000] [] [])))"
  using locked_session_goes_live [of
      "ex_db [ex_session 1 1 ''alice'' LOCKED 120000, ex_session 3 2 ''bob'' ARCHIVED 50000]
         [ex_message 1 1 False] [ex_global None WAITING 0 0]"
      "ex_session 1 1 ''alice'' LOCKED 120000" 120000 136000]
    locked_session_goes_live [of
      "ex_db [ex_session 1 1 ''alice'' LOCKED 120000, ex_session 2 2 ''bob'' LOCKED 130000] [] []"
      "ex_session 2 2 ''bob'' LOCKED 130000" 130000 136000]
  by (simp add: ex_db_def ex_session_def ex_message_def ex_global_def unused_count_def)

text \<open>
  C4 as stated fails of the store one run leaves. A session locked more than 5 minutes ago
  with no message goes LIVE and is archived by the same run, which leaves the global row in
  phase WAITING with neither live-start nor deadline. And with an OPEN session in the table,
  the step for OPEN sessions of the same run rewrites the global row to SUBMITTING for that
  session, after the upsert to LIVE.
\<close>

theorem locked_session_ends_run_archived:
  "status_of 1 (locked_to_live 500000 (open_to_locked 500000
      (ex_db [ex_session 1 1 ''alice'' LOCKED 120000] [] [ex_global (Some 1) SUBMITTING 0 0])))
     = Some LIVE
   \<and> status_of 1 (session_manager 500000
      (ex_db [ex_session 1 1 ''alice'' LOCKED 120000] [] [ex_global (Some 1) SUBMITTING 0 0]))
     = Some ARCHIVED
   \<and> read_global (session_manager 500000
      (ex_db [ex_session 1 1 ''alice'' LOCKED 120000] [] [ex_global (Some 1) SUBMITTING 0 0]))
     = Some \<lparr>su_session_id = None, su_round_state = WAITING, su_current_roast_index = 0,
            su_total_roasts = 0, su_submit_end_time = None, su_live_start_time = None\<rparr>
   \<and> read_global (session_manager 136000
      (ex_db [ex_session 1 1 ''alice'' LOCKED 120000, ex_session 2 2 ''bob'' OPEN 240000]
         [ex_message 1 1 False] [ex_global (Some 1) SUBMITTING 0 0]))
     = Some \<lparr>su_session_id = Some 2, su_round_state = SUBMITTING, su_current_roast_index = 0,
            su_total_roasts = 0, su_submit_end_time = Some 240000, su_live_start_time = None\<rparr>"
  by (simp add: session_manager_def open_to_locked_def locked_to_live_def archive_finished_def
      sync_open_def currentOpenSessions_def liveSessions_def archive_one_def openSessions_def
      lockedSessions_def lte_lock_time_def updateGlobalRoundState_def set_status_def
      status_of_def session_by_id_def unused_count_def read_global_def apply_update_def
      ex_db_def ex_session_def ex_message_def ex_global_def Let_def)


subsection \<open>The scheduler run\<close>

lemma find_next:
  "find (\<lambda>i. e \<ge> int i * BASE_DELAY_PER_ROAST \<and> i \<notin> {0..<k}) [0..<n]
     = (if k < n \<and> e \<ge> int k * BASE_DELAY_PER_ROAST then Some k else None)"
proof (cases "k < n \<and> e \<ge> int k * BASE_DELAY_PER_ROAST")
  case True
  then have "k < length [0..<n]" "[0..<n] ! k = k" by simp_all
  moreover have "\<forall>j<k. \<not> (e \<ge> int ([0..<n] ! j) * BASE_DELAY_PER_ROAST \<and> [0..<n] ! j \<notin> {0..<k})"
    using True by simp
  ultimately have "find (\<lambda>i. e \<ge> int i * BASE_DELAY_PER_ROAST \<and> i \<notin> {0..<k}) [0..<n] = Some k"
    using True unfolding find_Some_iff by (intro exI [of _ k]) simp
  with True show ?thesis by simp
next
  case False
  have "\<not> (e \<ge> int x * BASE_DELAY_PER_ROAST \<and> x \<notin> {0..<k})" if "x \<in> set [0..<n]" for x
  proof (cases "x < k")
    case True
    then show ?thesis by simp
  next
    case xk: False
    with that False have "e < int k * BASE_DELAY_PER_ROAST" by auto
    moreover have "int k * BASE_DELAY_PER_ROAST \<le> int x * BASE_DELAY_PER_ROAST"
      using xk by (simp add: BASE_DELAY_PER_ROAST_def)
    ultimately show ?thesis by simp
  qed
  then have "find (\<lambda>i. e \<ge> int i * BASE_DELAY_PER_ROAST \<and> i \<notin> {0..<k}) [0..<n] = None"
    unfolding find_None_iff by blast
  with False show ?thesis by simp
qed

lemma inv_start: "run_inv sid msgs ex (startTimestampScheduler True now (mount ex))"
  by (simp add: run_inv_def startTimestampScheduler_def mount_def)

lemma run_invE:
  assumes "run_inv sid msgs ex s"
  obtains new where "exchanges s = ex @ new"
    and "sorted_wrt (<) (map sequence_number new)"
    and "\<forall>e\<in>set new. \<exists>q<length (markedUsed s). numbered sid msgs q e"
    and "markedUsed s = map m_id (take (length (markedUsed s)) msgs)"
    and "started s = [0..<length (started s)]"
    and "calls s = started s"
    and "length (started s) \<le> length msgs"
    and "roastProcessed s = {0..<length (started s)}"
    and "case currentlyProcessing s of
              None \<Rightarrow> inflight s = []
                \<and> (length (markedUsed s) = length (started s)
                    \<or> (Suc (length (markedUsed s)) = length (started s)
                        \<and> (\<not> mounted s \<or> \<not> playing s)))
            | Some i \<Rightarrow> Suc i = length (started s) \<and> length (markedUsed s) = i
                \<and> (inflight s = [(i, Roast)] \<or> inflight s = [(i, Response)])"
proof -
  from assms obtain new :: "exchange list" where
    "exchanges s = ex @ new
        \<and> sorted_wrt (<) (map sequence_number new)
        \<and> (\<forall>e\<in>set new. \<exists>q<length (markedUsed s). numbered sid msgs q e)
        \<and> markedUsed s = map m_id (take (length (markedUsed s)) msgs)
        \<and> started s = [0..<length (started s)]
        \<and> calls s = started s
        \<and> length (started s) \<le> length msgs
        \<and> roastProcessed s = {0..<length (started s)}
        \<and> (case currentlyProcessing s of
              None \<Rightarrow> inflight s = []
                \<and> (length (markedUsed s) = length (started s)
                    \<or> (Suc (length (markedUsed s)) = length (started s)
                        \<and> (\<not> mounted s \<or> \<not> playing s)))
            | Some i \<Rightarrow> Suc i = length (started s) \<and> length (markedUsed s) = i
                \<and> (inflight s = [(i, Roast)] \<or> inflight s = [(i, Response)]))"
    unfolding run_inv_def ..
  then show thesis by (intro that [of new]) simp_all
qed

lemma run_invI:
  assumes "exchanges s = ex @ new"
    and "sorted_wrt (<) (map sequence_number new)"
    and "\<forall>e\<in>set new. \<exists>q<length (markedUsed s). numbered sid msgs q e"
    and "markedUsed s = map m_id (take (length (markedUsed s)) msgs)"
    and "started s = [0..<length (started s)]"
    and "calls s = started s"
    and "length (started s) \<le> length msgs"
    and "roastProcessed s = {0..<length (started s)}"
    and "case currentlyProcessing s of
              None \<Rightarrow> inflight s = []
                \<and> (length (markedUsed s) = length (started s)
                    \<or> (Suc (length (markedUsed s)) = length (started s)
                        \<and> (\<not> mounted s \<or> \<not> playing s)))
            | Some i \<Rightarrow> Suc i = length (started s) \<and> length (markedUsed s) = i
                \<and> (inflight s = [(i, Roast)] \<or> inflight s = [(i, Response)])"
  shows "run_inv sid msgs ex s"
  unfolding run_inv_def using assms by (intro exI [of _ new]) simp

lemma inv_fields:
  assumes "run_inv sid msgs ex s"
    and "exchanges s' = exchanges s" "markedUsed s' = markedUsed s"
    and "started s' = started s" "calls s' = calls s"
    and "roastProcessed s' = roastProcessed s" "currentlyProcessing s' = currentlyProcessing s"
    and "inflight s' = inflight s"
    and "\<not> mounted s \<or> \<not> playing s \<Longrightarrow> \<not> mounted s' \<or> \<not> playing s'"
  shows "run_inv sid msgs ex s'"
proof -
  from assms(1) obtain new where n: "exchanges s = ex @ new"
    "sorted_wrt (<) (map sequence_number new)"
    "\<forall>e\<in>set new. \<exists>q<length (markedUsed s). numbered sid msgs q e"
    "markedUsed s = map m_id (take (length (markedUsed s)) msgs)"
    "started s = [0..<length (started s)]"
    "calls s = started s"
    "length (started s) \<le> length msgs"
    "roastProcessed s = {0..<length (started s)}"
    "case currentlyProcessing s of
              None \<Rightarrow> inflight s = []
                \<and> (length (markedUsed s) = length (started s)
                    \<or> (Suc (length (markedUsed s)) = length (started s)
                        \<and> (\<not> mounted s \<or> \<not> playing s)))
            | Some i \<Rightarrow> Suc i = length (started s) \<and> length (markedUsed s) = i
                \<and> (inflight s = [(i, Roast)] \<or> inflight s = [(i, Response)])"
    by (rule run_invE)
  have tail: "case currentlyProcessing s' of
              None \<Rightarrow> inflight s' = []
                \<and> (length (markedUsed s') = length (started s')
                    \<or> (Suc (length (markedUsed s')) = length (started s')
                        \<and> (\<not> mounted s' \<or> \<not> playing s')))
            | Some i \<Rightarrow> Suc i = length (started s') \<and> length (markedUsed s') = i
                \<and> (inflight s' = [(i, Roast)] \<or> inflight s' = [(i, Response)])"
    using n(9) assms(2-9) by (auto split: option.splits)
  show ?thesis
    using n(1-8) tail unfolding assms(2-8) [symmetric] by (rule run_invI)
qed

lemma inv_process:
  assumes "run_inv sid msgs ex s" and "mounted s" and "playing s"
    and "currentlyProcessing s = None" and "length (started s) < length msgs"
  shows "run_inv sid msgs ex
           (processRoast msgs (length (started s)) (s\<lparr>calls := calls s @ [length (started s)]\<rparr>))"
proof -
  let ?k = "length (started s)"
  from assms(1) obtain new where n: "exchanges s = ex @ new"
    "sorted_wrt (<) (map sequence_number new)"
    "\<forall>e\<in>set new. \<exists>q<length (markedUsed s). numbered sid msgs q e"
    "markedUsed s = map m_id (take (length (markedUsed s)) msgs)"
    "started s = [0..<?k]"
    "calls s = started s"
    "?k \<le> length msgs"
    "roastProcessed s = {0..<?k}"
    "case currentlyProcessing s of
              None \<Rightarrow> inflight s = []
                \<and> (length (markedUsed s) = ?k
                    \<or> (Suc (length (markedUsed s)) = ?k
                        \<and> (\<not> mounted s \<or> \<not> playing s)))
            | Some i \<Rightarrow> Suc i = ?k \<and> length (markedUsed s) = i
                \<and> (inflight s = [(i, Roast)] \<or> inflight s = [(i, Response)])"
    by (rule run_invE)
  from n(9) assms(2-4) have idle: "inflight s = []" "length (markedUsed s) = ?k" by simp_all
  let ?s' = "processRoast msgs ?k (s\<lparr>calls := calls s @ [?k]\<rparr>)"
  have f: "exchanges ?s' = exchanges s" "started ?s' = started s @ [?k]"
    "calls ?s' = calls s @ [?k]" "roastProcessed ?s' = insert ?k (roastProcessed s)"
    "currentlyProcessing ?s' = Some ?k" "inflight ?s' = [(?k, Roast)]"
    "markedUsed ?s' = markedUsed s"
    using assms(2-5) idle(1) by (simp_all add: processRoast_def Let_def)
  have st: "started ?s' = [0..<length (started ?s')]"
    unfolding f(2) using n(5) by (metis length_append_singleton upt_Suc_append zero_le)
  have pr: "roastProcessed ?s' = {0..<length (started ?s')}"
    unfolding f(2,4) n(8) by (simp add: atLeast0_lessThan_Suc)
  show ?thesis
  proof (rule run_invI [of _ _ new])
    show "exchanges ?s' = ex @ new" using f(1) n(1) by simp
    show "sorted_wrt (<) (map sequence_number new)" by (rule n(2))
    show "\<forall>e\<in>set new. \<exists>q<length (markedUsed ?s'). numbered sid msgs q e"
      unfolding f(7) by (rule n(3))
    show "markedUsed ?s' = map m_id (take (length (markedUsed ?s')) msgs)"
      unfolding f(7) by (rule n(4))
    show "started ?s' = [0..<length (started ?s')]" by (rule st)
    show "calls ?s' = started ?s'" using f(2,3) n(6) by simp
    show "length (started ?s') \<le> length msgs" using f(2) assms(5) by simp
    show "roastProcessed ?s' = {0..<length (started ?s')}" by (rule pr)
    show "case currentlyProcessing ?s' of
              None \<Rightarrow> inflight ?s' = []
                \<and> (length (markedUsed ?s') = length (started ?s')
                    \<or> (Suc (length (markedUsed ?s')) = length (started ?s')
                        \<and> (\<not> mounted ?s' \<or> \<not> playing ?s')))
            | Some i \<Rightarrow> Suc i = length (started ?s') \<and> length (markedUsed ?s') = i
                \<and> (inflight ?s' = [(i, Roast)] \<or> inflight ?s' = [(i, Response)])"
      unfolding f(5) using f(2,6,7) idle(2) by simp
  qed
qed

lemma inv_tick:
  assumes "run_inv sid msgs ex s"
  shows "run_inv sid msgs ex (tick msgs now s)"
proof (cases "ticking s \<and> mounted s \<and> playing s \<and> \<not> paused s")
  case False
  then consider "\<not> ticking s" | "ticking s" "\<not> mounted s \<or> \<not> playing s"
    | "ticking s" "mounted s" "playing s" "paused s" by blast
  then show ?thesis
  proof cases
    case 1
    with assms show ?thesis by (simp add: tick_def)
  next
    case 2
    then have "tick msgs now s = s\<lparr>ticking := False\<rparr>" by (auto simp: tick_def)
    moreover have "run_inv sid msgs ex (s\<lparr>ticking := False\<rparr>)"
      using assms by (rule inv_fields) simp_all
    ultimately show ?thesis by simp
  next
    case 3
    with assms show ?thesis by (simp add: tick_def)
  qed
next
  case True
  let ?k = "length (started s)"
  let ?e = "now - liveStartTime s"
  from assms have pr: "roastProcessed s = {0..<?k}"
    by (rule run_invE)
  let ?s1 = "case find (\<lambda>i. ?e \<ge> int i * BASE_DELAY_PER_ROAST \<and> i \<notin> roastProcessed s)
                            [0..<length msgs] of
                       None \<Rightarrow> s
                     | Some i \<Rightarrow>
                         if currentlyProcessing s = None
                         then processRoast msgs i (s\<lparr>calls := calls s @ [i]\<rparr>)
                         else s"
  have t: "tick msgs now s =
      (if card (roastProcessed ?s1) = length msgs \<and> currentlyProcessing ?s1 = None
       then ?s1\<lparr>ticking := False\<rparr> else ?s1)"
    using True by (simp add: tick_def Let_def)
  have s1: "run_inv sid msgs ex ?s1"
  proof (cases "?k < length msgs \<and> ?e \<ge> int ?k * BASE_DELAY_PER_ROAST \<and> currentlyProcessing s = None")
    case True
    then have "?s1 = processRoast msgs ?k (s\<lparr>calls := calls s @ [?k]\<rparr>)"
      unfolding pr find_next by simp
    moreover have "run_inv sid msgs ex (processRoast msgs ?k (s\<lparr>calls := calls s @ [?k]\<rparr>))"
      using assms \<open>ticking s \<and> mounted s \<and> playing s \<and> \<not> paused s\<close> True
      by (intro inv_process) simp_all
    ultimately show ?thesis by simp
  next
    case False
    then have "?s1 = s" unfolding pr find_next by auto
    with assms show ?thesis by simp
  qed
  have "run_inv sid msgs ex (?s1\<lparr>ticking := False\<rparr>)"
    using s1 by (rule inv_fields) simp_all
  with s1 show ?thesis unfolding t by simp
qed

lemma inv_after_roast:
  assumes "run_inv sid msgs ex s"
  shows "run_inv sid msgs ex (after_roast idx s)"
proof (cases "(idx, Roast) \<in> set (inflight s)")
  case False
  with assms show ?thesis by (simp add: after_roast_def)
next
  case True
  let ?k = "length (started s)"
  from assms obtain new where n: "exchanges s = ex @ new"
    "sorted_wrt (<) (map sequence_number new)"
    "\<forall>e\<in>set new. \<exists>q<length (markedUsed s). numbered sid msgs q e"
    "markedUsed s = map m_id (take (length (markedUsed s)) msgs)"
    "started s = [0..<?k]"
    "calls s = started s"
    "?k \<le> length msgs"
    "roastProcessed s = {0..<?k}"
    "case currentlyProcessing s of
              None \<Rightarrow> inflight s = []
                \<and> (length (markedUsed s) = ?k
                    \<or> (Suc (length (markedUsed s)) = ?k
                        \<and> (\<not> mounted s \<or> \<not> playing s)))
            | Some i \<Rightarrow> Suc i = ?k \<and> length (markedUsed s) = i
                \<and> (inflight s = [(i, Roast)] \<or> inflight s = [(i, Response)])"
    by (rule run_invE)
  from n(9) True have cur: "currentlyProcessing s = Some idx" "Suc idx = ?k"
    "length (markedUsed s) = idx" "inflight s = [(idx, Roast)]"
    by (auto split: option.splits)
  let ?s' = "after_roast idx s"
  have same: "exchanges ?s' = exchanges s" "started ?s' = started s" "calls ?s' = calls s"
    "roastProcessed ?s' = roastProcessed s" "markedUsed ?s' = markedUsed s"
    by (simp_all add: after_roast_def)
  have tail: "case currentlyProcessing ?s' of
              None \<Rightarrow> inflight ?s' = []
                \<and> (length (markedUsed ?s') = length (started ?s')
                    \<or> (Suc (length (markedUsed ?s')) = length (started ?s')
                        \<and> (\<not> mounted ?s' \<or> \<not> playing ?s')))
            | Some i \<Rightarrow> Suc i = length (started ?s') \<and> length (markedUsed ?s') = i
                \<and> (inflight ?s' = [(i, Roast)] \<or> inflight ?s' = [(i, Response)])"
  proof (cases "\<not> mounted s \<or> \<not> playing s")
    case True
    then have "currentlyProcessing ?s' = None" "inflight ?s' = []"
      "\<not> mounted ?s' \<or> \<not> playing ?s'"
      using cur(4) by (auto simp: after_roast_def)
    then show ?thesis using cur(2,3) same(2,5) by simp
  next
    case False
    then have "currentlyProcessing ?s' = Some idx" "inflight ?s' = [(idx, Response)]"
      using cur(1,4) by (auto simp: after_roast_def)
    then show ?thesis using cur(2,3) same(2,5) by simp
  qed
  show ?thesis
    using n(1-8) tail unfolding same [symmetric] by (rule run_invI)
qed

lemma sorted_snoc:
  assumes "sorted_wrt (<) (map sequence_number new)"
    and "\<forall>e\<in>set new. sequence_number e < sequence_number x"
  shows "sorted_wrt (<) (map sequence_number (new @ [x]))"
  using assms by (simp add: sorted_wrt_append)

lemma inv_after_response:
  assumes "run_inv sid msgs ex s"
  shows "run_inv sid msgs ex (after_response sid msgs idx reply replyAudio stored s)"
proof (cases "(idx, Response) \<in> set (inflight s) \<and> idx < length msgs")
  case False
  with assms show ?thesis by (auto simp: after_response_def)
next
  case True
  let ?k = "length (started s)"
  from assms obtain new where n: "exchanges s = ex @ new"
    "sorted_wrt (<) (map sequence_number new)"
    "\<forall>e\<in>set new. \<exists>q<length (markedUsed s). numbered sid msgs q e"
    "markedUsed s = map m_id (take (length (markedUsed s)) msgs)"
    "started s = [0..<?k]"
    "calls s = started s"
    "?k \<le> length msgs"
    "roastProcessed s = {0..<?k}"
    "case currentlyProcessing s of
              None \<Rightarrow> inflight s = []
                \<and> (length (markedUsed s) = ?k
                    \<or> (Suc (length (markedUsed s)) = ?k
                        \<and> (\<not> mounted s \<or> \<not> playing s)))
            | Some i \<Rightarrow> Suc i = ?k \<and> length (markedUsed s) = i
                \<and> (inflight s = [(i, Roast)] \<or> inflight s = [(i, Response)])"
    by (rule run_invE)
  from n(9) True have cur: "currentlyProcessing s = Some idx" "Suc idx = ?k"
    "length (markedUsed s) = idx" "inflight s = [(idx, Response)]"
    by (auto split: option.splits)
  from True have idx: "idx < length msgs" by simp
  let ?e = "\<lparr>e_session_id = sid, e_message_id = Some (m_id (msgs ! idx)),
                    user_transcript = Some (userText (msgs ! idx)),
                    user_audio_url = audio_url (msgs ! idx),
                    e_host_type = (if idx mod 2 = 0 then A else B),
                    host_response = reply, host_audio_url = replyAudio,
                    sequence_number = int idx + 1\<rparr>"
  let ?new = "if stored then new @ [?e] else new"
  let ?s1 = "s\<lparr>exchanges := (if stored then exchanges s @ [?e] else exchanges s),
                       markedUsed := markedUsed s @ [m_id (msgs ! idx)],
                       currentlyProcessing := None,
                       inflight := remove1 (idx, Response) (inflight s)\<rparr>"
  have r: "after_response sid msgs idx reply replyAudio stored s =
      (if int idx = int (length msgs) - 1 then finishPlayback ?s1 else ?s1)"
    using True by (simp add: after_response_def Let_def)
  have below: "sequence_number e < sequence_number ?e" if "e \<in> set new" for e
  proof -
    from n(3) that obtain q where "q < length (markedUsed s)" "numbered sid msgs q e" by blast
    then show ?thesis using cur(3) by (simp add: numbered_def)
  qed
  have srt: "sorted_wrt (<) (map sequence_number ?new)"
  proof (cases stored)
    case True
    have "sorted_wrt (<) (map sequence_number (new @ [?e]))"
      using n(2) below by (intro sorted_snoc) blast+
    with True show ?thesis by simp
  next
    case False
    with n(2) show ?thesis by simp
  qed
  have len: "length (markedUsed ?s1) = Suc idx" using cur(3) by simp
  have num: "\<forall>e\<in>set ?new. \<exists>q<length (markedUsed ?s1). numbered sid msgs q e"
  proof
    fix e assume e: "e \<in> set ?new"
    show "\<exists>q<length (markedUsed ?s1). numbered sid msgs q e"
    proof (cases "e \<in> set new")
      case True
      with n(3) obtain q where "q < length (markedUsed s)" "numbered sid msgs q e" by blast
      then have "q < length (markedUsed ?s1) \<and> numbered sid msgs q e" by simp
      then show ?thesis by (rule exI)
    next
      case False
      with e have "e = ?e" by (cases stored) simp_all
      then have "idx < length (markedUsed ?s1) \<and> numbered sid msgs idx e"
        unfolding len by (simp add: numbered_def)
      then show ?thesis by (rule exI)
    qed
  qed
  have mk: "markedUsed ?s1 = map m_id (take (length (markedUsed ?s1)) msgs)"
  proof -
    have "take (Suc idx) msgs = take idx msgs @ [msgs ! idx]"
      using idx by (rule take_Suc_conv_app_nth)
    moreover have "markedUsed s = map m_id (take idx msgs)" using n(4) cur(3) by simp
    ultimately show ?thesis unfolding len by simp
  qed
  have s1: "run_inv sid msgs ex ?s1"
  proof (rule run_invI [of _ _ ?new])
    show "exchanges ?s1 = ex @ ?new" using n(1) by simp
    show "sorted_wrt (<) (map sequence_number ?new)" by (rule srt)
    show "\<forall>e\<in>set ?new. \<exists>q<length (markedUsed ?s1). numbered sid msgs q e" by (rule num)
    show "markedUsed ?s1 = map m_id (take (length (markedUsed ?s1)) msgs)" by (rule mk)
    show "started ?s1 = [0..<length (started ?s1)]" using n(5) by simp
    show "calls ?s1 = started ?s1" using n(6) by simp
    show "length (started ?s1) \<le> length msgs" using n(7) by simp
    show "roastProcessed ?s1 = {0..<length (started ?s1)}" using n(8) by simp
    show "case currentlyProcessing ?s1 of
              None \<Rightarrow> inflight ?s1 = []
                \<and> (length (markedUsed ?s1) = length (started ?s1)
                    \<or> (Suc (length (markedUsed ?s1)) = length (started ?s1)
                        \<and> (\<not> mounted ?s1 \<or> \<not> playing ?s1)))
            | Some i \<Rightarrow> Suc i = length (started ?s1) \<and> length (markedUsed ?s1) = i
                \<and> (inflight ?s1 = [(i, Roast)] \<or> inflight ?s1 = [(i, Response)])"
      using cur by simp
  qed
  have s2: "run_inv sid msgs ex (finishPlayback ?s1)"
    using s1 by (rule inv_fields) (simp_all add: finishPlayback_def)
  show ?thesis
  proof (cases "int idx = int (length msgs) - 1")
    case True
    then have "after_response sid msgs idx reply replyAudio stored s = finishPlayback ?s1"
      unfolding r by (rule if_P)
    with s2 show ?thesis by (simp only:)
  next
    case False
    then have "after_response sid msgs idx reply replyAudio stored s = ?s1"
      unfolding r by (rule if_not_P)
    with s1 show ?thesis by (simp only:)
  qed
qed

lemma inv_step:
  assumes "run_inv sid msgs ex s"
  shows "run_inv sid msgs ex (step sid msgs s ev)"
proof (cases ev)
  case (Tick now)
  with assms show ?thesis by (simp add: inv_tick)
next
  case (RoastPlayed idx)
  with assms show ?thesis by (simp add: inv_after_roast)
next
  case (ResponsePlayed idx reply replyAudio stored)
  with assms show ?thesis by (simp add: inv_after_response)
next
  case (Pause b)
  have "run_inv sid msgs ex (s\<lparr>paused := b\<rparr>)" using assms by (rule inv_fields) simp_all
  with Pause show ?thesis by simp
next
  case Unmount
  have "run_inv sid msgs ex (s\<lparr>mounted := False, ticking := False\<rparr>)"
    using assms by (rule inv_fields) simp_all
  with Unmount show ?thesis by simp
qed

lemma inv_foldl:
  "run_inv sid msgs ex s \<Longrightarrow> run_inv sid msgs ex (foldl (step sid msgs) s evs)"
  by (induction evs arbitrary: s) (simp_all add: inv_step)

lemma inv_run: "run_inv sid msgs ex (run sid msgs ex now evs)"
  unfolding run_def by (rule inv_foldl [OF inv_start])

lemma tick_calls:
  "(currentlyProcessing s \<noteq> None \<longrightarrow> calls (tick msgs t s) = calls s)
   \<and> (calls (tick msgs t s) = calls s
      \<or> (calls (tick msgs t s) = calls s @ [last (calls (tick msgs t s))]
          \<and> last (calls (tick msgs t s)) \<notin> roastProcessed s
          \<and> last (calls (tick msgs t s)) < length msgs))"
proof (cases "find (\<lambda>i. t - liveStartTime s \<ge> int i * BASE_DELAY_PER_ROAST \<and> i \<notin> roastProcessed s)
                [0..<length msgs]")
  case None
  then show ?thesis by (simp add: tick_def Let_def)
next
  case (Some i)
  then have i: "i \<notin> roastProcessed s" "i < length msgs"
    by (auto simp: find_Some_iff)
  have p: "calls (processRoast msgs i (s\<lparr>calls := calls s @ [i]\<rparr>)) = calls s @ [i]"
    by (simp add: processRoast_def Let_def)
  show ?thesis
    using Some i p by (simp add: tick_def Let_def)
qed

lemma tick_rows:
  "exchanges (tick msgs t s) = exchanges s" "markedUsed (tick msgs t s) = markedUsed s"
  by (simp_all add: tick_def processRoast_def Let_def split: option.splits)

lemma after_roast_rows:
  "exchanges (after_roast idx s) = exchanges s" "markedUsed (after_roast idx s) = markedUsed s"
  by (simp_all add: after_roast_def)

lemma stored_step:
  assumes "run_inv sid msgs ex s" and "all_stored ex s" and "insert_stored ev"
  shows "all_stored ex (step sid msgs s ev)"
proof (cases ev)
  case (Tick now)
  with assms(2) show ?thesis by (simp add: all_stored_def tick_rows)
next
  case (RoastPlayed idx)
  with assms(2) show ?thesis by (simp add: all_stored_def after_roast_rows)
next
  case (Pause b)
  with assms(2) show ?thesis by (simp add: all_stored_def)
next
  case Unmount
  with assms(2) show ?thesis by (simp add: all_stored_def)
next
  case (ResponsePlayed idx reply replyAudio stored)
  with assms(3) have st: "stored" by (simp add: insert_stored_def)
  show ?thesis
  proof (cases "(idx, Response) \<in> set (inflight s) \<and> idx < length msgs")
    case False
    with assms(2) ResponsePlayed show ?thesis by (auto simp: after_response_def)
  next
    case True
    from assms(1) obtain new where n: "exchanges s = ex @ new"
      and c: "case currentlyProcessing s of
              None \<Rightarrow> inflight s = []
                \<and> (length (markedUsed s) = length (started s)
                    \<or> (Suc (length (markedUsed s)) = length (started s)
                        \<and> (\<not> mounted s \<or> \<not> playing s)))
            | Some i \<Rightarrow> Suc i = length (started s) \<and> length (markedUsed s) = i
                \<and> (inflight s = [(i, Roast)] \<or> inflight s = [(i, Response)])"
      by (rule run_invE)
    from c True have j: "length (markedUsed s) = idx" by (auto split: option.splits)
    let ?s' = "after_response sid msgs idx reply replyAudio stored s"
    have ex': "map sequence_number (drop (length ex) (exchanges ?s'))
        = map sequence_number new @ [int idx + 1]"
      using True st n by (simp add: after_response_def Let_def finishPlayback_def)
    have mk': "length (markedUsed ?s') = Suc idx"
      using True j by (simp add: after_response_def Let_def finishPlayback_def)
    from assms(2) n j have old: "map sequence_number new = map (\<lambda>q. int q + 1) [0..<idx]"
      by (simp add: all_stored_def)
    show ?thesis
      unfolding ResponsePlayed step.simps all_stored_def ex' mk' old by simp
  qed
qed

lemma stored_foldl:
  assumes "run_inv sid msgs ex s" and "all_stored ex s" and "list_all insert_stored evs"
  shows "all_stored ex (foldl (step sid msgs) s evs)"
  using assms
proof (induction evs arbitrary: s)
  case Nil
  then show ?case by simp
next
  case (Cons ev evs)
  from Cons.prems have "run_inv sid msgs ex (step sid msgs s ev)"
    and "all_stored ex (step sid msgs s ev)" and "list_all insert_stored evs"
    by (simp_all add: inv_step stored_step)
  then have "all_stored ex (foldl (step sid msgs) (step sid msgs s ev) evs)" by (rule Cons.IH)
  then show ?case by simp
qed

lemma stored_run:
  "list_all insert_stored evs \<Longrightarrow> all_stored ex (run sid msgs ex now evs)"
  unfolding run_def
  by (rule stored_foldl [OF inv_start]) (simp_all add: all_stored_def startTimestampScheduler_def mount_def)

text \<open>
  C7. At every moment of one scheduler run at most one invocation of \<^verbatim>\<open>processRoast\<close> is in
  flight, and none when \<^verbatim>\<open>currentlyProcessing\<close> is null; the indices started are 0, 1, 2, ... in
  queue order, each once, and they are the ones the ticks called. A tick calls
  \<^verbatim>\<open>processRoast\<close> for no index while \<^verbatim>\<open>currentlyProcessing\<close> is non-null, and when it calls it,
  for one index of the queue that is not in the processed set.
\<close>

theorem one_item_in_flight:
  "length (inflight (run sid msgs ex now evs)) \<le> 1
   \<and> (currentlyProcessing (run sid msgs ex now evs) = None \<longrightarrow> inflight (run sid msgs ex now evs) = [])
   \<and> started (run sid msgs ex now evs) = [0..<length (started (run sid msgs ex now evs))]
   \<and> distinct (started (run sid msgs ex now evs))
   \<and> calls (run sid msgs ex now evs) = started (run sid msgs ex now evs)
   \<and> (currentlyProcessing (run sid msgs ex now evs) \<noteq> None
        \<longrightarrow> calls (tick msgs t (run sid msgs ex now evs)) = calls (run sid msgs ex now evs))
   \<and> (calls (tick msgs t (run sid msgs ex now evs)) = calls (run sid msgs ex now evs)
      \<or> (calls (tick msgs t (run sid msgs ex now evs))
            = calls (run sid msgs ex now evs) @ [last (calls (tick msgs t (run sid msgs ex now evs)))]
          \<and> last (calls (tick msgs t (run sid msgs ex now evs)))
              \<notin> roastProcessed (run sid msgs ex now evs)
          \<and> last (calls (tick msgs t (run sid msgs ex now evs))) < length msgs))"
proof -
  let ?s = "run sid msgs ex now evs"
  from inv_run [of sid msgs ex now evs] obtain new :: "exchange list" where n:
      "started ?s = [0..<length (started ?s)]" "calls ?s = started ?s"
      "case currentlyProcessing ?s of
              None \<Rightarrow> inflight ?s = []
                \<and> (length (markedUsed ?s) = length (started ?s)
                    \<or> (Suc (length (markedUsed ?s)) = length (started ?s)
                        \<and> (\<not> mounted ?s \<or> \<not> playing ?s)))
            | Some i \<Rightarrow> Suc i = length (started ?s) \<and> length (markedUsed ?s) = i
                \<and> (inflight ?s = [(i, Roast)] \<or> inflight ?s = [(i, Response)])"
    by (rule run_invE)
  from n(3) have a: "length (inflight ?s) \<le> 1"
    and b: "currentlyProcessing ?s = None \<longrightarrow> inflight ?s = []"
    by (auto split: option.splits)
  have c: "distinct (started ?s)" by (subst n(1)) (rule distinct_upt)
  from a b c n(1,2) tick_calls [of ?s msgs t] show ?thesis by blast
qed

theorem one_item_in_flight_witness:
  "inflight (run 1 [ex_message 1 1 False, ex_message 2 1 False] [] 1000 [Tick 1250]) = [(0, Roast)]
   \<and> calls (tick [ex_message 1 1 False, ex_message 2 1 False] 20000
        (run 1 [ex_message 1 1 False, ex_message 2 1 False] [] 1000 [Tick 1250])) = [0]"
proof -
  let ?M = "[ex_message 1 1 False, ex_message 2 1 False]"
  let ?s = "run 1 ?M [] 1000 [Tick 1250]"
  have e: "inflight ?s = [(0, Roast)]" "currentlyProcessing ?s = Some 0" "calls ?s = [0]"
    by (simp_all add: run_def startTimestampScheduler_def mount_def tick_def processRoast_def
        BASE_DELAY_PER_ROAST_def Let_def)
  from one_item_in_flight [of 1 ?M "[]" 1000 "[Tick 1250]" 20000] e(2)
  have "calls (tick ?M 20000 ?s) = calls ?s" by simp
  with e show ?thesis by simp
qed

text \<open>
  C9 (as amended). In one scheduler run of a Host over its queue, the Exchange rows it adds
  to the table follow the rows it found and have strictly increasing sequence numbers; each
  is the row of a completed message \<open>q\<close> of the queue: number \<open>q + 1\<close>, the run's session and
  that message. The completed messages are the first \<open>j\<close> of the queue, and at most one
  more is started; an idle run that is still playing has completed all it started. When no
  insert fails, the run has added exactly one row for each completed message, numbered
  1, 2, ..., \<open>j\<close> in that order.
\<close>

theorem exchanges_numbered_within_run:
  "take (length ex) (exchanges (run sid msgs ex now evs)) = ex
   \<and> markedUsed (run sid msgs ex now evs)
       = map m_id (take (length (markedUsed (run sid msgs ex now evs))) msgs)
   \<and> length (markedUsed (run sid msgs ex now evs)) \<le> length (started (run sid msgs ex now evs))
   \<and> length (started (run sid msgs ex now evs)) \<le> Suc (length (markedUsed (run sid msgs ex now evs)))
   \<and> length (started (run sid msgs ex now evs)) \<le> length msgs
   \<and> (currentlyProcessing (run sid msgs ex now evs) = None
        \<and> mounted (run sid msgs ex now evs) \<and> playing (run sid msgs ex now evs)
      \<longrightarrow> length (markedUsed (run sid msgs ex now evs)) = length (started (run sid msgs ex now evs)))
   \<and> sorted_wrt (<) (map sequence_number (drop (length ex) (exchanges (run sid msgs ex now evs))))
   \<and> (\<forall>e\<in>set (drop (length ex) (exchanges (run sid msgs ex now evs))).
         \<exists>q<length (markedUsed (run sid msgs ex now evs)). numbered sid msgs q e)
   \<and> (list_all insert_stored evs \<longrightarrow>
         length (exchanges (run sid msgs ex now evs))
           = length ex + length (markedUsed (run sid msgs ex now evs))
         \<and> map sequence_number (drop (length ex) (exchanges (run sid msgs ex now evs)))
           = map (\<lambda>q. int q + 1) [0..<length (markedUsed (run sid msgs ex now evs))])"
proof -
  let ?s = "run sid msgs ex now evs"
  from inv_run [of sid msgs ex now evs] obtain new where n: "exchanges ?s = ex @ new"
    "sorted_wrt (<) (map sequence_number new)"
    "\<forall>e\<in>set new. \<exists>q<length (markedUsed ?s). numbered sid msgs q e"
    "markedUsed ?s = map m_id (take (length (markedUsed ?s)) msgs)"
    "length (started ?s) \<le> length msgs"
    "case currentlyProcessing ?s of
              None \<Rightarrow> inflight ?s = []
                \<and> (length (markedUsed ?s) = length (started ?s)
                    \<or> (Suc (length (markedUsed ?s)) = length (started ?s)
                        \<and> (\<not> mounted ?s \<or> \<not> playing ?s)))
            | Some i \<Rightarrow> Suc i = length (started ?s) \<and> length (markedUsed ?s) = i
                \<and> (inflight ?s = [(i, Roast)] \<or> inflight ?s = [(i, Response)])"
    by (rule run_invE)
  have d: "drop (length ex) (exchanges ?s) = new" "take (length ex) (exchanges ?s) = ex"
    using n(1) by simp_all
  from n(6) have k: "length (markedUsed ?s) \<le> length (started ?s)"
    "length (started ?s) \<le> Suc (length (markedUsed ?s))"
    "currentlyProcessing ?s = None \<and> mounted ?s \<and> playing ?s
      \<longrightarrow> length (markedUsed ?s) = length (started ?s)"
    by (auto split: option.splits)
  have all: "length (exchanges ?s) = length ex + length (markedUsed ?s)
         \<and> map sequence_number new = map (\<lambda>q. int q + 1) [0..<length (markedUsed ?s)]"
    if "list_all insert_stored evs"
  proof -
    from that have "all_stored ex ?s" by (rule stored_run)
    then have m: "map sequence_number new = map (\<lambda>q. int q + 1) [0..<length (markedUsed ?s)]"
      unfolding all_stored_def d(1) .
    then have "length (map sequence_number new) = length (map (\<lambda>q. int q + 1) [0..<length (markedUsed ?s)])"
      by (rule arg_cong)
    then have "length new = length (markedUsed ?s)" by simp
    with m n(1) show ?thesis by simp
  qed
  show ?thesis unfolding d using d(2) n(2-5) k all by blast
qed

theorem exchanges_numbered_within_run_witness:
  "map sequence_number (exchanges (run 1 [ex_message 1 1 False, ex_message 2 1 False] [] 1000
      [Tick 1250, RoastPlayed 0, ResponsePlayed 0 ''ha'' None True, Tick 16000, RoastPlayed 1,
       ResponsePlayed 1 ''ho'' None True])) = [1, 2]
   \<and> markedUsed (run 1 [ex_message 1 1 False, ex_message 2 1 False] [] 1000
      [Tick 1250, RoastPlayed 0, ResponsePlayed 0 ''ha'' None True, Tick 16000, RoastPlayed 1,
       ResponsePlayed 1 ''ho'' None True]) = [1, 2]"
proof -
  let ?M = "[ex_message 1 1 False, ex_message 2 1 False]"
  let ?E = "[Tick 1250, RoastPlayed 0, ResponsePlayed 0 ''ha'' None True, Tick 16000, RoastPlayed 1,
       ResponsePlayed 1 ''ho'' None True]"
  let ?s = "run 1 ?M [] 1000 ?E"
  have e: "markedUsed ?s = [1, 2]"
    by (simp add: run_def startTimestampScheduler_def mount_def tick_def processRoast_def
        after_roast_def after_response_def finishPlayback_def BASE_DELAY_PER_ROAST_def
        ex_message_def Let_def)
  have a: "list_all insert_stored ?E" by (simp add: insert_stored_def)
  from exchanges_numbered_within_run [of "[]" 1 ?M 1000 ?E] a
  have "map sequence_number (drop (length ([]::exchange list)) (exchanges ?s))
       = map (\<lambda>q. int q + 1) [0..<length (markedUsed ?s)]"
    by blast
  then have "map sequence_number (exchanges ?s) = [1, 2]"
    unfolding e by (simp add: upt_rec)
  with e show ?thesis by simp
qed

text \<open>
  C9 as stated fails in two ways. The number is the index in the queue a client fetched and
  the table does not forbid a repeat: a Host completes the first of two messages and
  unmounts; the next Host fetches the remaining unused message, which is index 0 of its
  queue, and writes sequence number 1 for the same session again. And \<^verbatim>\<open>saveExchange\<close> goes
  on when its insert fails: with the second of three inserts not stored, the rows of the
  session are numbered 1, 3.
\<close>

theorem second_run_repeats_sequence_number:
  "map sequence_number (exchanges (run 1
      (fetchMessages 1 [ex_message 1 1 True, ex_message 2 1 False])
      (exchanges (run 1 (fetchMessages 1 [ex_message 1 1 False, ex_message 2 1 False]) [] 1000
         [Tick 1250, RoastPlayed 0, ResponsePlayed 0 ''ha'' None True, Unmount]))
      50000 [Tick 50250, RoastPlayed 0, ResponsePlayed 0 ''ho'' None True])) = [1, 1]
   \<and> map e_session_id (exchanges (run 1
      (fetchMessages 1 [ex_message 1 1 True, ex_message 2 1 False])
      (exchanges (run 1 (fetchMessages 1 [ex_message 1 1 False, ex_message 2 1 False]) [] 1000
         [Tick 1250, RoastPlayed 0, ResponsePlayed 0 ''ha'' None True, Unmount]))
      50000 [Tick 50250, RoastPlayed 0, ResponsePlayed 0 ''ho'' None True])) = [1, 1]
   \<and> map sequence_number (exchanges (run 1
      [ex_message 1 1 False, ex_message 2 1 False, ex_message 3 1 False] [] 1000
      [Tick 1250, RoastPlayed 0, ResponsePlayed 0 ''ha'' None True,
       Tick 16000, RoastPlayed 1, ResponsePlayed 1 ''ho'' None False,
       Tick 31000, RoastPlayed 2, ResponsePlayed 2 ''hi'' None True])) = [1, 3]"
  by (simp add: run_def startTimestampScheduler_def mount_def tick_def processRoast_def
      after_roast_def after_response_def finishPlayback_def BASE_DELAY_PER_ROAST_def
      fetchMessages_def ex_message_def userText_def Let_def)


subsection \<open>The progress trigger\<close>

lemma progress_rows_char:
  assumes "\<forall>g\<in>set gs. - INT_MAX - 1 \<le> current_roast_index g \<and> current_roast_index g < INT_MAX"
  shows "progress_rows new now gs =
     Inr (map (\<lambda>g. if g_session_id g = Some (m_session_id new) \<and> g_round_state g = LIVE_ROUND
                    then g\<lparr>current_roast_index := min (total_roasts g) (current_roast_index g + 1),
                           updated_at := now\<rparr>
                    else g) gs)"
  using assms by (induction gs) (auto simp: progress_row_def pg_add_def)

text \<open>
  C10. The trigger changes a row of the global round state only when the message's
  \<open>used\<close> goes from false to true, and then only the rows of that message's session whose
  phase is LIVE; it sets their index to the least of the total and the index plus one, so
  a row with index at most total keeps that, and every row it changes has it. The rows are
  32-bit, and the addition does not overflow below the greatest integer.
\<close>

theorem trigger_keeps_index_within_total:
  assumes "\<forall>g\<in>set gs. - INT_MAX - 1 \<le> current_roast_index g \<and> current_roast_index g < INT_MAX"
  shows "\<exists>gs'. increment_global_round_progress_on_message_used old new now gs = Inr gs'
           \<and> gs' = map (\<lambda>g. if \<not> used old \<and> used new
                                 \<and> g_session_id g = Some (m_session_id new)
                                 \<and> g_round_state g = LIVE_ROUND
                              then g\<lparr>current_roast_index :=
                                       min (total_roasts g) (current_roast_index g + 1),
                                     updated_at := now\<rparr>
                              else g) gs
           \<and> (\<forall>i<length gs. current_roast_index (gs ! i) \<le> total_roasts (gs ! i)
                  \<longrightarrow> current_roast_index (gs' ! i) \<le> total_roasts (gs' ! i))
           \<and> (\<forall>i<length gs. gs' ! i \<noteq> gs ! i
                  \<longrightarrow> current_roast_index (gs' ! i) \<le> total_roasts (gs' ! i))"
proof (cases "trigger_fires old new")
  case True
  then have u: "\<not> used old \<and> used new" by (auto simp: trigger_fires_def)
  show ?thesis
    using True u progress_rows_char [OF assms, of new now]
    by (auto simp: increment_global_round_progress_on_message_used_def)
next
  case False
  then have n: "\<not> (\<not> used old \<and> used new)" by (auto simp: trigger_fires_def)
  have "map (\<lambda>g. if \<not> used old \<and> used new
                                 \<and> g_session_id g = Some (m_session_id new)
                                 \<and> g_round_state g = LIVE_ROUND
                              then g\<lparr>current_roast_index :=
                                       min (total_roasts g) (current_roast_index g + 1),
                                     updated_at := now\<rparr>
                              else g) gs = gs"
    using n by (intro map_idI) auto
  with False show ?thesis
    by (simp add: increment_global_round_progress_on_message_used_def)
qed

theorem trigger_keeps_index_within_total_witness:
  "increment_global_round_progress_on_message_used (ex_message 1 1 False) (ex_message 1 1 True) 140000
     [ex_global (Some 1) LIVE_ROUND 2 2, ex_global (Some 1) LIVE_ROUND 0 2,
      ex_global (Some 2) LIVE_ROUND 0 2, ex_global (Some 1) SUBMITTING 0 2]
   = Inr [(ex_global (Some 1) LIVE_ROUND 2 2)\<lparr>updated_at := 140000\<rparr>,
          (ex_global (Some 1) LIVE_ROUND 1 2)\<lparr>updated_at := 140000\<rparr>,
          ex_global (Some 2) LIVE_ROUND 0 2, ex_global (Some 1) SUBMITTING 0 2]"
  using trigger_keeps_index_within_total [of
      "[ex_global (Some 1) LIVE_ROUND 2 2, ex_global (Some 1) LIVE_ROUND 0 2,
        ex_global (Some 2) LIVE_ROUND 0 2, ex_global (Some 1) SUBMITTING 0 2]"
      "ex_message 1 1 False" "ex_message 1 1 True" 140000]
  by (simp add: ex_defs INT_MAX_def)

subsection \<open>The Follower's offset\<close>

text \<open>
  C8. A mounted Follower that receives a snapshot with audio-start \<open>T\<close> at time \<open>T + k\<close>
  (milliseconds): when \<open>k\<close> is more than 30 seconds no audio element is created and nothing
  plays; otherwise, when \<open>k\<close> is positive and less than the clip's duration, the handler
  seeks to \<open>k\<close> before it calls play.
\<close>

theorem follower_seeks_to_elapsed:
  "(k > 30000 \<longrightarrow> playFollowerAudio True T (T + k) = None)
   \<and> (k \<le> 30000 \<and> 0 < k \<and> real_of_int k / 1000 < duration
        \<longrightarrow> playFollowerAudio True T (T + k) = Some (real_of_int k / 1000)
          \<and> onloadedmetadata (real_of_int k / 1000) duration = real_of_int k / 1000)"
  by (simp add: playFollowerAudio_def onloadedmetadata_def Let_def)

theorem follower_seeks_to_elapsed_witness:
  "playFollowerAudio True 1000 41000 = None
   \<and> playFollowerAudio True 1000 4000 = Some 3 \<and> onloadedmetadata 3 10 = 3"
  using follower_seeks_to_elapsed [of 40000 1000 10] follower_seeks_to_elapsed [of 3000 1000 10]
  by simp

subsection \<open>Forward-only status\<close>

text \<open>
  C1. Session status moves only forward under the writes of the Controller and of
  Round-Completion. Evaluated here: a first Controller invocation has read the OPEN session
  that is due; a second invocation then runs whole and takes the session to LIVE; the first
  one's update, keyed by the id alone, writes LOCKED over LIVE.
\<close>

theorem controller_write_regresses_status:
  "status_of 1 (session_manager 140000 (ex_db [ex_session 1 1 ''alice'' OPEN 120000] [] []))
     = Some LIVE
   \<and> status_of 1
       (lock_loop (openSessions 140000 (ex_db [ex_session 1 1 ''alice'' OPEN 120000] [] []))
          (session_manager 140000 (ex_db [ex_session 1 1 ''alice'' OPEN 120000] [] [])))
     = Some LOCKED"
  by (simp add: ex_defs store_defs controller_defs Let_def)

subsection \<open>The successor session\<close>

text \<open>
  C6. The successor that Round-Completion creates is OPEN with a two-minute window and a
  subject other than the one just archived when there is more than one. Evaluated here:
  two subjects, the session of the first is LIVE and is completed, \<^verbatim>\<open>Math.random()\<close> gives 0;
  the successor has the first subject again.
\<close>

theorem successor_repeats_subject:
  "map persona_name (roast_sessions (fst (complete_live_round (Some 1) 300000 0
      (ex_db [ex_session 1 1 ''alice'' LIVE 120000] [] [ex_global (Some 1) LIVE_ROUND 0 0]))))
   = [''alice'', ''alice'']"
  by (simp add: ex_defs store_defs completion_defs trigger_defs Let_def)

end
